theory Spec2Isabelle
  imports Complex_Main
begin

section \<open>Strings\<close>

text \<open>
  Go strings are byte sequences; they are modelled as \<open>string\<close> (a list of 8-bit
  characters).  The program uses two functions of package \<open>strings\<close>.
\<close>

text \<open>
  \<open>strings.Replace(s, old, new, -1)\<close>: every non-overlapping occurrence of \<open>old\<close>,
  scanned from the left, is replaced by \<open>new\<close>.  The program calls it with
  \<open>old = ","\<close>; the model leaves \<open>s\<close> unchanged for the empty \<open>old\<close>, which the
  program never passes.
\<close>

function Replace :: "string \<Rightarrow> string \<Rightarrow> string \<Rightarrow> string" where
  "Replace [] old new = []"
| "Replace (c # cs) old new =
     (if old \<noteq> [] \<and> take (length old) (c # cs) = old
      then new @ Replace (drop (length old - 1) cs) old new
      else c # Replace cs old new)"
  by pat_completeness auto
termination
  by (relation "measure (\<lambda>(s, old, new). length s)") auto

text \<open>\<open>strings.HasPrefix(s, prefix)\<close>.\<close>

definition HasPrefix :: "string \<Rightarrow> string \<Rightarrow> bool" where
  "HasPrefix s p = (length p \<le> length s \<and> take (length p) s = p)"

section \<open>Numbers (package strconv)\<close>

text \<open>
  Package \<open>strconv\<close> is the Go standard library and not part of the repository.
  Modelled from the spec: step 4b/4c of the transform ("parse the cleaned string as a
  decimal number", "re-render the parsed number in canonical minimal decimal form"),
  made precise with the documented contract of \<open>strconv.ParseFloat(s, 64)\<close> (the
  nearest binary64 value, ties to even; a range error beyond the largest value; the
  spellings of infinity and NaN) and of \<open>strconv.FormatFloat(f, 'f', -1, 64)\<close> (the
  smallest number of digits that parses back to \<open>f\<close>, without exponent).
\<close>

text \<open>
  A binary64 value.  \<open>Num neg m e\<close> is \<open>(-1)^neg * m * 2^e\<close>; the values produced by
  \<open>roundToFloat64\<close> satisfy \<open>m < 2^53\<close> and either \<open>2^52 \<le> m\<close> with
  \<open>-1074 \<le> e \<le> 971\<close>, or \<open>e = -1074\<close> (subnormal numbers and zero), so every
  number has one representation.
\<close>

datatype float64 = Num bool int int | Infinity bool | NaN

datatype numError = ErrSyntax | ErrRange

text \<open>Unary minus of Go on a float64 flips the sign bit.\<close>

fun negate :: "float64 \<Rightarrow> float64" where
  "negate (Num neg m e) = Num (\<not> neg) m e"
| "negate (Infinity neg) = Infinity (\<not> neg)"
| "negate NaN = NaN"

subsection \<open>Rounding a rational number to binary64\<close>

text \<open>
  Mantissas, numerators and denominators are non-negative numbers of type \<open>int\<close>;
  \<open>bitLen n\<close> is the number of binary digits of \<open>n\<close>.
\<close>

function bitLen :: "int \<Rightarrow> nat" where
  "bitLen n = (if n \<le> 0 then 0 else Suc (bitLen (n div 2)))"
  by pat_completeness auto
termination
  by (relation "measure nat") auto

declare bitLen.simps [simp del]

text \<open>\<open>scaleBy2 num den e\<close> is the fraction \<open>(num / den) / 2^e\<close>.\<close>

definition scaleBy2 :: "int \<Rightarrow> int \<Rightarrow> int \<Rightarrow> int \<times> int" where
  "scaleBy2 num den e =
     (if 0 \<le> e then (num, den * 2 ^ nat e) else (num * 2 ^ nat (- e), den))"

text \<open>Rounding a fraction to the nearest natural number, ties to the even one.\<close>

definition roundHalfEven :: "int \<times> int \<Rightarrow> int" where
  "roundHalfEven q =
     (let k = fst q div snd q; r = fst q mod snd q
      in if 2 * r < snd q then k
         else if snd q < 2 * r then k + 1
         else if even k then k else k + 1)"

text \<open>
  \<open>roundToFloat64 neg num den\<close> is the binary64 value nearest to \<open>\<plusminus> num / den\<close>
  (\<open>den > 0\<close>).  The exponent is chosen so that the quotient has 53 bits, never
  below the subnormal exponent -1074; a result beyond the largest finite value is a
  range error.
\<close>

definition roundToFloat64 :: "bool \<Rightarrow> int \<Rightarrow> int \<Rightarrow> numError + float64" where
  "roundToFloat64 neg num den =
     (if num = 0 then Inr (Num neg 0 (- 1074))
      else
        let l = int (bitLen num) - int (bitLen den);
            e0 = max (l - 53) (- 1074);
            q0 = scaleBy2 num den e0;
            e1 = (if 2 ^ 53 \<le> fst q0 div snd q0 then e0 + 1 else e0);
            m1 = roundHalfEven (scaleBy2 num den e1);
            m = (if m1 = 2 ^ 53 then 2 ^ 52 else m1);
            e = (if m1 = 2 ^ 53 then e1 + 1 else e1)
        in if 971 < e then Inl ErrRange else Inr (Num neg m e))"

subsection \<open>ParseFloat\<close>

definition isDigit :: "char \<Rightarrow> bool" where
  "isDigit c = (48 \<le> (of_char c :: int) \<and> (of_char c :: int) \<le> 57)"

definition digitVal :: "char \<Rightarrow> int" where
  "digitVal c = of_char c - 48"

text \<open>The letters \<open>a\<close>..\<open>f\<close> and \<open>A\<close>..\<open>F\<close>.\<close>

definition isHexLetter :: "char \<Rightarrow> bool" where
  "isHexLetter c =
     ((97 \<le> (of_char c :: int) \<and> (of_char c :: int) \<le> 102) \<or>
      (65 \<le> (of_char c :: int) \<and> (of_char c :: int) \<le> 70))"

definition hexLetterVal :: "char \<Rightarrow> int" where
  "hexLetterVal c = (if 97 \<le> (of_char c :: int) then of_char c - 87 else of_char c - 55)"

definition toLower :: "char \<Rightarrow> char" where
  "toLower c =
     (if 65 \<le> (of_char c :: int) \<and> (of_char c :: int) \<le> 90
      then char_of ((of_char c :: int) + 32) else c)"

text \<open>
  The spellings of the special values: an optional sign before \<open>inf\<close> or
  \<open>infinity\<close>, and an unsigned \<open>nan\<close>, in any letter case.
\<close>

definition special :: "string \<Rightarrow> float64 option" where
  "special s =
     (let neg = HasPrefix s ''-'';
          body = (if HasPrefix s ''-'' \<or> HasPrefix s ''+'' then tl s else s);
          low = map toLower body
      in if low = ''inf'' \<or> low = ''infinity'' then Some (Infinity neg)
         else if map toLower s = ''nan'' then Some NaN
         else None)"

text \<open>
  The mantissa loop of the number reader.  The state is
  \<open>(sawdot, sawdigits, nd, dp, mantissa)\<close>: whether a point and a digit were seen, the
  number of digits after the leading zeros, the position of the point, and the value
  of the digits read.  Underscores are skipped here and checked by \<open>underscoreOK\<close>.
  The result is the state and the unread rest of the string.
\<close>

type_synonym mantState = "bool \<times> bool \<times> nat \<times> int \<times> int"

fun readMantissa :: "bool \<Rightarrow> string \<Rightarrow> mantState \<Rightarrow> mantState \<times> string" where
  "readMantissa hex [] st = (st, [])"
| "readMantissa hex (c # cs) (sawdot, sawdigits, nd, dp, mantissa) =
     (if c = CHR ''_'' then readMantissa hex cs (sawdot, sawdigits, nd, dp, mantissa)
      else if c = CHR ''.'' then
        (if sawdot then ((sawdot, sawdigits, nd, dp, mantissa), c # cs)
         else readMantissa hex cs (True, sawdigits, nd, int nd, mantissa))
      else if isDigit c then
        (if c = CHR ''0'' \<and> nd = 0
         then readMantissa hex cs (sawdot, True, nd, dp - 1, mantissa)
         else readMantissa hex cs
                (sawdot, True, nd + 1, dp,
                 mantissa * (if hex then 16 else 10) + digitVal c))
      else if hex \<and> isHexLetter c then
        readMantissa hex cs (sawdot, True, nd + 1, dp, mantissa * 16 + hexLetterVal c)
      else ((sawdot, sawdigits, nd, dp, mantissa), c # cs))"

text \<open>
  The digits of the exponent; the accumulated value stops growing once it has
  reached 10000.
\<close>

fun readExpDigits :: "string \<Rightarrow> int \<Rightarrow> int \<times> string" where
  "readExpDigits [] e = (e, [])"
| "readExpDigits (c # cs) e =
     (if c = CHR ''_'' then readExpDigits cs e
      else if isDigit c then readExpDigits cs (if e < 10000 then e * 10 + digitVal c else e)
      else (e, c # cs))"

text \<open>
  The exponent part after the mantissa: \<open>None\<close> is a syntax error, otherwise the
  signed exponent and the unread rest.  A hexadecimal mantissa must have one.
\<close>

definition readExponent :: "bool \<Rightarrow> string \<Rightarrow> (int \<times> string) option" where
  "readExponent hex s =
     (case s of
        [] \<Rightarrow> (if hex then None else Some (0, []))
      | c # cs \<Rightarrow>
          if toLower c = (if hex then CHR ''p'' else CHR ''e'') then
            (case cs of
               [] \<Rightarrow> None
             | d # ds \<Rightarrow>
                 let esign = (if d = CHR ''-'' then - 1 else 1 :: int);
                     ds' = (if d = CHR ''+'' \<or> d = CHR ''-'' then ds else d # ds)
                 in (case ds' of
                       [] \<Rightarrow> None
                     | x # xs \<Rightarrow>
                         if isDigit x
                         then (case readExpDigits ds' 0 of
                                 (e, rest) \<Rightarrow> Some (e * esign, rest))
                         else None))
          else if hex then None
          else Some (0, c # cs))"

text \<open>
  An underscore may only stand between two digits, or between the base prefix and a
  digit.  The state \<open>saw\<close> is the kind of the last character: \<open>0\<close> a digit, \<open>_\<close> an
  underscore, \<open>!\<close> anything else, \<open>^\<close> the start.
\<close>

fun underscoreLoop :: "bool \<Rightarrow> char \<Rightarrow> string \<Rightarrow> bool" where
  "underscoreLoop hex saw [] = (saw \<noteq> CHR ''_'')"
| "underscoreLoop hex saw (c # cs) =
     (if isDigit c \<or> (hex \<and> isHexLetter c) then underscoreLoop hex (CHR ''0'') cs
      else if c = CHR ''_'' then
        (if saw \<noteq> CHR ''0'' then False else underscoreLoop hex (CHR ''_'') cs)
      else if saw = CHR ''_'' then False
      else underscoreLoop hex (CHR ''!'') cs)"

definition underscoreOK :: "string \<Rightarrow> bool" where
  "underscoreOK s =
     (let s1 = (if HasPrefix s ''-'' \<or> HasPrefix s ''+'' then tl s else s)
      in if 2 \<le> length s1 \<and> hd s1 = CHR ''0'' \<and>
            toLower (s1 ! 1) \<in> {CHR ''b'', CHR ''o'', CHR ''x''}
         then underscoreLoop (toLower (s1 ! 1) = CHR ''x'') (CHR ''0'') (drop 2 s1)
         else underscoreLoop False (CHR ''^'') s1)"

text \<open>
  \<open>readFloat\<close>: the sign, whether the number is hexadecimal, the mantissa and the
  exponent of the base (10, or 2 for a hexadecimal number), and the unread rest; \<open>None\<close>
  when the text is not a number.
\<close>

definition readFloat :: "string \<Rightarrow> (bool \<times> bool \<times> int \<times> int \<times> string) option" where
  "readFloat s =
     (if s = [] then None
      else
        let neg = (hd s = CHR ''-'');
            s1 = (if hd s = CHR ''+'' \<or> hd s = CHR ''-'' then tl s else s);
            hex = (2 < length s1 \<and> hd s1 = CHR ''0'' \<and> toLower (s1 ! 1) = CHR ''x'');
            s2 = (if hex then drop 2 s1 else s1)
        in (case readMantissa hex s2 (False, False, 0, 0, 0) of
              ((sawdot, sawdigits, nd, dp0, mantissa), rest) \<Rightarrow>
                if \<not> sawdigits then None
                else
                  let dp1 = (if sawdot then dp0 else int nd);
                      dp2 = (if hex then dp1 * 4 else dp1);
                      ndMant = (if hex then int nd * 4 else int nd)
                  in (case readExponent hex rest of
                        None \<Rightarrow> None
                      | Some (e, rest') \<Rightarrow>
                          let ex = (if mantissa \<noteq> 0 then dp2 + e - ndMant else 0)
                          in if underscoreOK (take (length s - length rest') s)
                             then Some (neg, hex, mantissa, ex, rest')
                             else None)))"

text \<open>The fraction \<open>mantissa * base^ex\<close>.\<close>

definition powFrac :: "int \<Rightarrow> int \<Rightarrow> int \<Rightarrow> int \<times> int" where
  "powFrac base mantissa ex =
     (if 0 \<le> ex then (mantissa * base ^ nat ex, 1) else (mantissa, base ^ nat (- ex)))"

definition ParseFloat :: "string \<Rightarrow> numError + float64" where
  "ParseFloat s =
     (case special s of
        Some v \<Rightarrow> Inr v
      | None \<Rightarrow>
          (case readFloat s of
             None \<Rightarrow> Inl ErrSyntax
           | Some (neg, hex, mantissa, ex, rest) \<Rightarrow>
               if rest \<noteq> [] then Inl ErrSyntax
               else
                 let q = powFrac (if hex then 2 else 10) mantissa ex
                 in roundToFloat64 neg (fst q) (snd q)))"

subsection \<open>FormatFloat\<close>

definition digitChar :: "int \<Rightarrow> char" where
  "digitChar d = char_of (48 + d)"

function digitsOfNat :: "int \<Rightarrow> string" where
  "digitsOfNat n =
     (if n < 10 then [digitChar n] else digitsOfNat (n div 10) @ [digitChar (n mod 10)])"
  by pat_completeness auto
termination
  by (relation "measure nat") auto

declare digitsOfNat.simps [simp del]

text \<open>The fraction \<open>(num / den) / 10^k\<close>.\<close>

definition scaleBy10 :: "int \<times> int \<Rightarrow> int \<Rightarrow> int \<times> int" where
  "scaleBy10 q k =
     (if 0 \<le> k then (fst q, snd q * 10 ^ nat k) else (fst q * 10 ^ nat (- k), snd q))"

text \<open>
  For a fraction below one, the least \<open>j\<close> from which \<open>num * 10^j\<close> reaches
  \<open>den\<close>.
\<close>

function leadingShift :: "int \<Rightarrow> int \<Rightarrow> nat \<Rightarrow> nat" where
  "leadingShift num den j =
     (if num \<le> 0 \<or> den \<le> num * 10 ^ j then j else leadingShift num den (Suc j))"
  by pat_completeness auto
termination
proof (relation "measure (\<lambda>(num, den, j). nat (den - num * 10 ^ j))")
  show "wf (measure (\<lambda>(num, den, j). nat (den - num * 10 ^ j)))"
    by simp
next
  fix num den :: int and j :: nat
  assume a: "\<not> (num \<le> 0 \<or> den \<le> num * 10 ^ j)"
  then have pos: "0 < num * 10 ^ j" and below: "num * 10 ^ j < den"
    by auto
  from pos have "num * 10 ^ j < num * 10 ^ Suc j"
    by simp
  with below have "nat (den - num * 10 ^ Suc j) < nat (den - num * 10 ^ j)"
    by arith
  then show "((num, den, Suc j), (num, den, j))
      \<in> measure (\<lambda>(num, den, j). nat (den - num * 10 ^ j))"
    by simp
qed

declare leadingShift.simps [simp del]

text \<open>
  The decimal exponent \<open>p\<close> of a positive fraction: \<open>10^p \<le> num / den < 10^(p+1)\<close>.
\<close>

definition decimalExponent :: "int \<times> int \<Rightarrow> int" where
  "decimalExponent q =
     (if snd q \<le> fst q then int (length (digitsOfNat (fst q div snd q))) - 1
      else - int (leadingShift (fst q) (snd q) 1))"

text \<open>
  Whether the decimal \<open>c * 10^k\<close> parses back to the binary64 number \<open>m * 2^e\<close>.
\<close>

definition roundTrips :: "int \<Rightarrow> int \<Rightarrow> int \<Rightarrow> int \<Rightarrow> bool" where
  "roundTrips m e c k =
     (let q = powFrac 10 c k in roundToFloat64 False (fst q) (snd q) = Inr (Num False m e))"

text \<open>
  The shortest digits of \<open>m * 2^e\<close> (\<open>m > 0\<close>): for \<open>n = 1, 2, \<dots>\<close> digits, the
  two \<open>n\<close>-digit decimals around the number are tried; the first \<open>n\<close> at which one
  of them parses back to the number gives the result, the nearer one if both do.  At
  17 digits the nearest decimal is taken.  The result is the chosen integer and the
  power of ten that scales it.
\<close>

function shortestFrom :: "nat \<Rightarrow> int \<Rightarrow> int \<Rightarrow> int \<times> int" where
  "shortestFrom n m e =
     (let x = powFrac 2 m e;
          k = decimalExponent x - int n + 1;
          s = scaleBy10 x k;
          lo = fst s div snd s;
          okdown = roundTrips m e lo k;
          okup = roundTrips m e (lo + 1) k
      in if 17 \<le> n \<or> (okdown \<and> okup) then (roundHalfEven s, k)
         else if okdown then (lo, k)
         else if okup then (lo + 1, k)
         else shortestFrom (Suc n) m e)"
  by pat_completeness auto
termination
  by (relation "measure (\<lambda>(n, m, e). 17 - n)") auto

declare shortestFrom.simps [simp del]

text \<open>Trailing zeros of the digit string are dropped.\<close>

definition trimZeros :: "string \<Rightarrow> string" where
  "trimZeros ds = rev (dropWhile (\<lambda>c. c = CHR ''0'') (rev ds))"

text \<open>
  The digits and the position of the decimal point: the value is
  \<open>0.d1 d2 \<dots> * 10^dp\<close>.  Zero has no digits.
\<close>

definition shortest :: "int \<Rightarrow> int \<Rightarrow> string \<times> int" where
  "shortest m e =
     (if m = 0 then ([], 0)
      else case shortestFrom 1 m e of
             (c, k) \<Rightarrow> (trimZeros (digitsOfNat c), int (length (digitsOfNat c)) + k))"

text \<open>
  The \<open>%f\<close> layout: the sign, the integer part padded with zeros (\<open>0\<close> when the
  number is below one), and \<open>prec\<close> fraction digits after a point when \<open>prec > 0\<close>.
\<close>

definition fracDigit :: "string \<Rightarrow> int \<Rightarrow> nat \<Rightarrow> char" where
  "fracDigit ds dp i =
     (let j = dp + int i
      in if 0 \<le> j \<and> j < int (length ds) then ds ! nat j else CHR ''0'')"

definition fmtF :: "bool \<Rightarrow> string \<Rightarrow> int \<Rightarrow> nat \<Rightarrow> string" where
  "fmtF neg ds dp prec =
     (if neg then ''-'' else []) @
     (if 0 < dp
      then take (nat dp) ds @ replicate (nat dp - length ds) (CHR ''0'')
      else ''0'') @
     (if 0 < prec then CHR ''.'' # map (fracDigit ds dp) [0..<prec] else [])"

text \<open>\<open>strconv.FormatFloat(f, 'f', -1, 64)\<close>.\<close>

definition FormatFloat :: "float64 \<Rightarrow> string" where
  "FormatFloat f =
     (case f of
        NaN \<Rightarrow> ''NaN''
      | Infinity neg \<Rightarrow> (if neg then ''-Inf'' else ''+Inf'')
      | Num neg m e \<Rightarrow>
          (case shortest m e of
             (ds, dp) \<Rightarrow> fmtF neg ds dp (nat (int (length ds) - dp))))"

section \<open>Workbooks (package excelize)\<close>

text \<open>
  The spreadsheet library is not part of the repository.
  Modelled from the spec: section 3 (a workbook is an ordered collection of sheets,
  a sheet an ordered grid of string cells with merge regions) and section 4.1, step 2
  ("row removal re-indexes subsequent rows downward by one each time", on "an explicit
  mutable ordered sequence with remove-at-index semantics").  A sheet is the list of
  its rows, a row the list of its cells.  The library numbers rows from 1; a row number
  below 1 is rejected, a row number beyond the last row removes nothing.  Reading the
  rows of a sheet leaves out the blank cells at the end of each row and the blank rows
  at the end of the sheet, as the library documents for \<open>GetRows\<close>.
\<close>

datatype error =
    ErrNotExist string
  | ErrNotZip
  | ErrSheetNotExist string
  | ErrInvalidRowNumber int
  | ErrInvalidDelim

type_synonym row = "string list"

text \<open>A merge region, by the (column, row) coordinates of two opposite corners.\<close>

type_synonym mergeCell = "(nat \<times> nat) \<times> (nat \<times> nat)"

record sheet =
  mergeCells :: "mergeCell list"
  sheetRows :: "row list"

text \<open>The open workbook: the sheets in workbook order, each under its name.\<close>

type_synonym workbook = "(string \<times> sheet) list"

text \<open>
  What a path of the file system holds: the bytes of a workbook, identified with the
  workbook they encode, or other bytes.
\<close>

datatype blob = XlsxBlob workbook | RawBlob string

type_synonym filesystem = "string \<Rightarrow> blob option"

definition OpenFile :: "filesystem \<Rightarrow> string \<Rightarrow> error + workbook" where
  "OpenFile fs path =
     (case fs path of
        None \<Rightarrow> Inl (ErrNotExist path)
      | Some (RawBlob bytes) \<Rightarrow> Inl ErrNotZip
      | Some (XlsxBlob f) \<Rightarrow> Inr f)"

definition GetSheetList :: "workbook \<Rightarrow> string list" where
  "GetSheetList f = map fst f"

definition updateSheet :: "string \<Rightarrow> sheet \<Rightarrow> workbook \<Rightarrow> workbook" where
  "updateSheet name ws f = map (\<lambda>(n, x). if n = name then (n, ws) else (n, x)) f"

definition GetMergeCells :: "workbook \<Rightarrow> string \<Rightarrow> error + mergeCell list" where
  "GetMergeCells f name =
     (case map_of f name of
        None \<Rightarrow> Inl (ErrSheetNotExist name)
      | Some ws \<Rightarrow> Inr (mergeCells ws))"

definition GetStartAxis :: "mergeCell \<Rightarrow> nat \<times> nat" where
  "GetStartAxis mc = fst mc"

definition GetEndAxis :: "mergeCell \<Rightarrow> nat \<times> nat" where
  "GetEndAxis mc = snd mc"

text \<open>Two rectangles overlap; the corners are put in order first.\<close>

definition isOverlap :: "mergeCell \<Rightarrow> mergeCell \<Rightarrow> bool" where
  "isOverlap a b =
     (let ax1 = min (fst (fst a)) (fst (snd a)); ax2 = max (fst (fst a)) (fst (snd a));
          ay1 = min (snd (fst a)) (snd (snd a)); ay2 = max (snd (fst a)) (snd (snd a));
          bx1 = min (fst (fst b)) (fst (snd b)); bx2 = max (fst (fst b)) (fst (snd b));
          by1 = min (snd (fst b)) (snd (snd b)); by2 = max (snd (fst b)) (snd (snd b))
      in ax1 \<le> bx2 \<and> bx1 \<le> ax2 \<and> ay1 \<le> by2 \<and> by1 \<le> ay2)"

text \<open>
  Unmerging a range drops every merge region that overlaps it; the cells keep their
  values.
\<close>

definition UnmergeCell :: "workbook \<Rightarrow> string \<Rightarrow> nat \<times> nat \<Rightarrow> nat \<times> nat \<Rightarrow> error + workbook" where
  "UnmergeCell f name topLeft bottomRight =
     (case map_of f name of
        None \<Rightarrow> Inl (ErrSheetNotExist name)
      | Some ws \<Rightarrow>
          Inr (updateSheet name
                 (ws\<lparr>mergeCells :=
                       filter (\<lambda>mc. \<not> isOverlap (topLeft, bottomRight) mc) (mergeCells ws)\<rparr>)
                 f))"

definition RemoveRow :: "workbook \<Rightarrow> string \<Rightarrow> int \<Rightarrow> error + workbook" where
  "RemoveRow f name r =
     (if r < 1 then Inl (ErrInvalidRowNumber r)
      else case map_of f name of
             None \<Rightarrow> Inl (ErrSheetNotExist name)
           | Some ws \<Rightarrow>
               Inr (updateSheet name
                      (ws\<lparr>sheetRows :=
                            take (nat r - 1) (sheetRows ws) @ drop (nat r) (sheetRows ws)\<rparr>)
                      f))"

text \<open>A row without the blank cells at its end.\<close>

definition trimCells :: "row \<Rightarrow> row" where
  "trimCells row = rev (dropWhile (\<lambda>cell. cell = []) (rev row))"

text \<open>The rows without the rows at the end that have no cell left.\<close>

definition trimRows :: "row list \<Rightarrow> row list" where
  "trimRows rows = rev (dropWhile (\<lambda>row. row = []) (rev rows))"

definition GetRows :: "workbook \<Rightarrow> string \<Rightarrow> error + row list" where
  "GetRows f name =
     (case map_of f name of
        None \<Rightarrow> Inl (ErrSheetNotExist name)
      | Some ws \<Rightarrow> Inr (trimRows (map trimCells (sheetRows ws))))"

section \<open>CSV output (package encoding/csv)\<close>

text \<open>
  The CSV writer is Go's standard library.
  Modelled from the spec: section 4.1, "Output" (lines of three fields, "quote fields
  containing the delimiter, quote, or newline").  The state of a writer is the list of
  the records written to it: those still in its buffer and those flushed to the string
  builder behind it.  The text of the builder is the encoding of the flushed records.
\<close>

record writer =
  buffered :: "string list list"
  flushed :: "string list list"

definition NewWriter :: writer where
  "NewWriter = \<lparr>buffered = [], flushed = []\<rparr>"

text \<open>The white space a field may start with: the ASCII ones, then UTF-8 encoded ones.\<close>

definition leadingSpace :: "string \<Rightarrow> bool" where
  "leadingSpace s =
     (\<exists>p \<in> set [[9], [10], [11], [12], [13], [32], [194, 133], [194, 160],
                  [225, 154, 128], [226, 128, 128], [226, 128, 129], [226, 128, 130],
                  [226, 128, 131], [226, 128, 132], [226, 128, 133], [226, 128, 134],
                  [226, 128, 135], [226, 128, 136], [226, 128, 137], [226, 128, 138],
                  [226, 128, 168], [226, 128, 169], [226, 128, 175], [226, 129, 159],
                  [227, 128, 128 :: int]].
        map of_char (take (length p) s) = p)"

definition fieldNeedsQuotes :: "string \<Rightarrow> bool" where
  "fieldNeedsQuotes field =
     (if field = [] then False
      else if field = [CHR 0x5C, CHR ''.''] then True
      else if \<exists>c \<in> set field. c = CHR 0x0A \<or> c = CHR 0x0D \<or> c = CHR 0x22 \<or> c = CHR '',''
      then True
      else leadingSpace field)"

text \<open>Inside quotes a quote is doubled; everything else is copied.\<close>

definition encodeField :: "string \<Rightarrow> string" where
  "encodeField field =
     (if fieldNeedsQuotes field
      then [CHR 0x22] @ concat (map (\<lambda>c. if c = CHR 0x22 then [c, c] else [c]) field) @ [CHR 0x22]
      else field)"

fun joinFields :: "string list \<Rightarrow> string" where
  "joinFields [] = []"
| "joinFields [x] = x"
| "joinFields (x # y # ys) = x @ '','' @ joinFields (y # ys)"

definition encodeRecord :: "string list \<Rightarrow> string" where
  "encodeRecord rcd = joinFields (map encodeField rcd) @ [CHR 0x0A]"

text \<open>Writing fails only for an invalid delimiter; the delimiter here is the comma.\<close>

definition Write :: "writer \<Rightarrow> string list \<Rightarrow> error + writer" where
  "Write w rcd = Inr (w\<lparr>buffered := buffered w @ [rcd]\<rparr>)"

definition Flush :: "writer \<Rightarrow> writer" where
  "Flush w = \<lparr>buffered = [], flushed = flushed w @ buffered w\<rparr>"

text \<open>The text of the string builder behind the writer.\<close>

definition builderString :: "writer \<Rightarrow> string" where
  "builderString w = concat (map encodeRecord (flushed w))"

section \<open>The transform: CleanSpreadsheet (main.go, lines 19 to 121)\<close>

text \<open>
  Lines 38 to 43: every merge region that was listed is unmerged; an error of the
  library ends the transform.
\<close>

fun unmergeLoop :: "workbook \<Rightarrow> string \<Rightarrow> mergeCell list \<Rightarrow> error + workbook" where
  "unmergeLoop f name [] = Inr f"
| "unmergeLoop f name (mc # mergedCells) =
     (case UnmergeCell f name (GetStartAxis mc) (GetEndAxis mc) of
        Inl err \<Rightarrow> Inl err
      | Inr f' \<Rightarrow> unmergeLoop f' name mergedCells)"

text \<open>
  Lines 46 to 51: \<open>for i := 1; i <= 25; i++\<close> removes row \<open>i\<close> of the sheet as it is
  at that moment.
\<close>

function removeFirstRows :: "workbook \<Rightarrow> string \<Rightarrow> int \<Rightarrow> error + workbook" where
  "removeFirstRows f name i =
     (if i \<le> 25
      then (case RemoveRow f name i of
              Inl err \<Rightarrow> Inl err
            | Inr f' \<Rightarrow> removeFirstRows f' name (i + 1))
      else Inr f)"
  by pat_completeness auto
termination
  by (relation "measure (\<lambda>(f, name, i). nat (26 - i))") auto

declare removeFirstRows.simps [simp del]

text \<open>
  Lines 58 to 63: \<open>for i := len(rows) - 14; i < len(rows); i++\<close> removes row \<open>i + 1\<close>;
  \<open>n\<close> is \<open>len(rows)\<close>, read once before the loop.
\<close>

function removeLastRows :: "workbook \<Rightarrow> string \<Rightarrow> int \<Rightarrow> int \<Rightarrow> error + workbook" where
  "removeLastRows f name n i =
     (if i < n
      then (case RemoveRow f name (i + 1) of
              Inl err \<Rightarrow> Inl err
            | Inr f' \<Rightarrow> removeLastRows f' name n (i + 1))
      else Inr f)"
  by pat_completeness auto
termination
  by (relation "measure (\<lambda>(f, name, n, i). nat (n - i))") auto

declare removeLastRows.simps [simp del]

text \<open>
  Lines 77 to 113, the body of the loop over the rows, on the credit writer and the
  debit writer.
\<close>

definition processRow :: "nat \<Rightarrow> row \<Rightarrow> writer \<times> writer \<Rightarrow> error + writer \<times> writer" where
  "processRow rowIndex row ws =
     (if rowIndex = 0 \<or> length row < 39 then Inr ws
      else
        let amountStr = Replace (row ! 37) '','' []
        in if amountStr = [] \<or> amountStr = ''Amount'' then Inr ws
           else case ParseFloat amountStr of
                  Inl err \<Rightarrow> Inr ws
                | Inr amount \<Rightarrow>
                    let formattedAmount = FormatFloat amount;
                        newRow = [row ! 0, row ! 24, formattedAmount]
                    in if HasPrefix amountStr ''-''
                       then
                         let positiveAmount = FormatFloat (negate amount)
                         in (case Write (fst ws) (newRow[2 := positiveAmount]) of
                               Inl err \<Rightarrow> Inl err
                             | Inr creditWriter \<Rightarrow> Inr (creditWriter, snd ws))
                       else
                         (case Write (snd ws) newRow of
                            Inl err \<Rightarrow> Inl err
                          | Inr debitWriter \<Rightarrow> Inr (fst ws, debitWriter)))"

text \<open>Line 76: the loop over the rows, with the row index.\<close>

fun processRows :: "nat \<Rightarrow> row list \<Rightarrow> writer \<times> writer \<Rightarrow> error + writer \<times> writer" where
  "processRows rowIndex [] ws = Inr ws"
| "processRows rowIndex (row # rows) ws =
     (case processRow rowIndex row ws of
        Inl err \<Rightarrow> Inl err
      | Inr ws' \<Rightarrow> processRows (Suc rowIndex) rows ws')"

text \<open>Lines 33 to 117: the body of the loop over the sheets.\<close>

definition processSheet ::
  "workbook \<Rightarrow> string \<Rightarrow> writer \<times> writer \<Rightarrow> error + workbook \<times> writer \<times> writer" where
  "processSheet f name ws =
     (case GetMergeCells f name of
        Inl err \<Rightarrow> Inl err
      | Inr mergedCells \<Rightarrow>
     (case unmergeLoop f name mergedCells of
        Inl err \<Rightarrow> Inl err
      | Inr f1 \<Rightarrow>
     (case removeFirstRows f1 name 1 of
        Inl err \<Rightarrow> Inl err
      | Inr f2 \<Rightarrow>
     (case GetRows f2 name of
        Inl err \<Rightarrow> Inl err
      | Inr rows \<Rightarrow>
     (case removeLastRows f2 name (int (length rows)) (int (length rows) - 14) of
        Inl err \<Rightarrow> Inl err
      | Inr f3 \<Rightarrow>
     (case GetRows f3 name of
        Inl err \<Rightarrow> Inl err
      | Inr rows' \<Rightarrow>
          if length rows' = 0 then Inr (f3, ws)
          else (case processRows 0 rows' ws of
                  Inl err \<Rightarrow> Inl err
                | Inr ws' \<Rightarrow> Inr (f3, Flush (fst ws'), Flush (snd ws')))))))))"

text \<open>Line 32: the loop over the sheet names.\<close>

fun sheetLoop ::
  "workbook \<Rightarrow> string list \<Rightarrow> writer \<times> writer \<Rightarrow> error + workbook \<times> writer \<times> writer" where
  "sheetLoop f [] ws = Inr (f, ws)"
| "sheetLoop f (name # names) ws =
     (case processSheet f name ws of
        Inl err \<Rightarrow> Inl err
      | Inr (f', ws') \<Rightarrow> sheetLoop f' names ws')"

text \<open>
  The two writers when line 120 is reached: the records of the Ledger.
\<close>

definition ledger :: "filesystem \<Rightarrow> string \<Rightarrow> error + writer \<times> writer" where
  "ledger fs filePath =
     (case OpenFile fs filePath of
        Inl err \<Rightarrow> Inl err
      | Inr f \<Rightarrow>
          (case sheetLoop f (GetSheetList f) (NewWriter, NewWriter) of
             Inl err \<Rightarrow> Inl err
           | Inr (f', ws) \<Rightarrow> Inr ws))"

text \<open>
  \<open>CleanSpreadsheet\<close> returns the text of the two string builders, or the error.
\<close>

definition CleanSpreadsheet :: "filesystem \<Rightarrow> string \<Rightarrow> error + string \<times> string" where
  "CleanSpreadsheet fs filePath =
     (case ledger fs filePath of
        Inl err \<Rightarrow> Inl err
      | Inr ws \<Rightarrow> Inr (builderString (fst ws), builderString (snd ws)))"

section \<open>The gateway: uploadHandler (main.go, lines 123 to 194)\<close>

text \<open>
  The request is its method and the uploaded form file, if any.  The environment
  says whether the temporary file can be created, which name it gets, whether the
  upload can be copied into it and whether the response can be written.  The response
  is a failure with its status and message, or the archive.
\<close>

record request =
  httpMethod :: string
  formFile :: "blob option"

record environment =
  files :: filesystem
  createTempOK :: bool
  tempName :: string
  copyOK :: bool
  responseWriteOK :: bool

datatype response = Failure nat string | Archive "(string \<times> string) list"

text \<open>
  The archive writer (package \<open>archive/zip\<close>) on a buffer in memory: an entry is
  created under a name and its content is written to it.
\<close>

definition zipCreate :: "(string \<times> string) list \<Rightarrow> string \<Rightarrow> error + (string \<times> string) list" where
  "zipCreate entries name = Inr (entries @ [(name, [])])"

definition zipWrite :: "(string \<times> string) list \<Rightarrow> string \<Rightarrow> (string \<times> string) list" where
  "zipWrite entries content =
     (if entries = [] then []
      else butlast entries @ [(fst (last entries), snd (last entries) @ content)])"

definition zipClose :: "(string \<times> string) list \<Rightarrow> error + (string \<times> string) list" where
  "zipClose entries = Inr entries"

text \<open>The message of an error, as the library words it.\<close>

definition errorText :: "error \<Rightarrow> string" where
  "errorText err =
     (case err of
        ErrNotExist path \<Rightarrow> ''open '' @ path @ '': no such file or directory''
      | ErrNotZip \<Rightarrow> ''zip: not a valid zip file''
      | ErrSheetNotExist name \<Rightarrow> ''sheet '' @ name @ '' does not exist''
      | ErrInvalidRowNumber r \<Rightarrow>
          ''invalid row number '' @ (if r < 0 then ''-'' @ digitsOfNat (- r) else digitsOfNat r)
      | ErrInvalidDelim \<Rightarrow> ''csv: invalid field or comment delimiter'')"

definition uploadHandler :: "environment \<Rightarrow> request \<Rightarrow> response" where
  "uploadHandler env r =
     (if httpMethod r \<noteq> ''POST'' then Failure 405 ''Only POST method is allowed''
      else case formFile r of
        None \<Rightarrow> Failure 400 ''Unable to read file from form''
      | Some upload \<Rightarrow>
          if \<not> createTempOK env then Failure 500 ''Unable to create temporary file''
          else if \<not> copyOK env then Failure 500 ''Unable to save uploaded file''
          else case CleanSpreadsheet ((files env)(tempName env \<mapsto> upload)) (tempName env) of
            Inl err \<Rightarrow> Failure 500 (''Error processing file: '' @ errorText err)
          | Inr (creditCSV, debitCSV) \<Rightarrow>
              if creditCSV = [] \<and> debitCSV = []
              then Failure 500 ''No data processed from the file''
              else case zipCreate [] ''credits.csv'' of
                Inl err \<Rightarrow> Failure 500 (''Error creating zip file: '' @ errorText err)
              | Inr z1 \<Rightarrow>
                  (case zipCreate (zipWrite z1 creditCSV) ''debits.csv'' of
                     Inl err \<Rightarrow> Failure 500 (''Error creating zip file: '' @ errorText err)
                   | Inr z2 \<Rightarrow>
                       (case zipClose (zipWrite z2 debitCSV) of
                          Inl err \<Rightarrow> Failure 500 (''Error closing zip file: '' @ errorText err)
                        | Inr z3 \<Rightarrow>
                            if responseWriteOK env then Archive z3
                            else Failure 500 ''Error writing response'')))"

section \<open>Notions used to state the properties\<close>

text \<open>The amount field of a row after the commas are stripped (lines 82 and 83).\<close>

definition cleanedAmount :: "row \<Rightarrow> string" where
  "cleanedAmount row = Replace (row ! 37) '','' []"

text \<open>
  The conditions under which the specification says a row is skipped: the row index
  is 0, the row has fewer than 39 cells, the cleaned amount is empty or the word
  \<open>Amount\<close>, or it does not parse.
\<close>

definition skipRow :: "nat \<Rightarrow> row \<Rightarrow> bool" where
  "skipRow rowIndex row =
     (rowIndex = 0 \<or> length row < 39 \<or> cleanedAmount row = [] \<or>
      cleanedAmount row = ''Amount'' \<or> isl (ParseFloat (cleanedAmount row)))"

text \<open>A writer after one more record was written to it.\<close>

definition appendRecord :: "writer \<Rightarrow> string list \<Rightarrow> writer" where
  "appendRecord w rcd = w\<lparr>buffered := buffered w @ [rcd]\<rparr>"

text \<open>All records written to a writer so far, flushed or not.\<close>

definition records :: "writer \<Rightarrow> string list list" where
  "records w = flushed w @ buffered w"

text \<open>
  Rows of 39 cells with a reference in cell 0, a memo in cell 24, the given amount in
  cell 37 and a last cell that is not blank, so that the row is read with all its 39
  cells.
\<close>

definition dataRow :: "string \<Rightarrow> row" where
  "dataRow amount =
     [''REF1''] @ replicate 23 [] @ [''MEMO1''] @ replicate 12 [] @ [amount, ''END'']"

definition shortRow :: row where
  "shortRow = [''REF1'', ''MEMO1'', ''500'']"

text \<open>Example workbooks and file systems.\<close>

definition labelRow :: "nat \<Rightarrow> row" where
  "labelRow k = [digitsOfNat (int k)]"

definition sheet60 :: sheet where
  "sheet60 = \<lparr>mergeCells = [], sheetRows = map labelRow [1..<61]\<rparr>"

definition book :: "workbook \<Rightarrow> filesystem" where
  "book f = (\<lambda>path. if path = ''book.xlsx'' then Some (XlsxBlob f) else None)"

definition sheet41 :: sheet where
  "sheet41 =
     \<lparr>mergeCells = [],
      sheetRows = replicate 26 [''HEADER''] @ [dataRow ''-100''] @ replicate 14 [''FOOTER'']\<rparr>"

definition emptySheet :: sheet where
  "emptySheet = \<lparr>mergeCells = [], sheetRows = []\<rparr>"

definition uniformSheet :: "row \<Rightarrow> sheet" where
  "uniformSheet row = \<lparr>mergeCells = [], sheetRows = replicate 41 row\<rparr>"

definition uploadEnv :: environment where
  "uploadEnv =
     \<lparr>files = (\<lambda>path. None), createTempOK = True, tempName = ''/tmp/uploaded-1.xlsx'',
      copyOK = True, responseWriteOK = True\<rparr>"

definition uploadOf :: "workbook \<Rightarrow> request" where
  "uploadOf f = \<lparr>httpMethod = ''POST'', formFile = Some (XlsxBlob f)\<rparr>"

text \<open>
  A sheet of 41 rows with one merge region whose row 4 is a data row: the row is at
  index 1 after the trim.
\<close>

definition singleRecordSheet :: "string \<Rightarrow> sheet" where
  "singleRecordSheet amount =
     \<lparr>mergeCells = [((1, 1), (3, 2))],
      sheetRows = replicate 3 [''HEADER''] @ [dataRow amount] @ replicate 37 [''FOOTER'']\<rparr>"

definition narrowSheet :: sheet where
  "narrowSheet = \<lparr>mergeCells = [], sheetRows = replicate 41 shortRow\<rparr>"

text \<open>The digits \<open>1\<close> to \<open>9\<close>.\<close>

definition nonzeroDigit :: "char \<Rightarrow> bool" where
  "nonzeroDigit c = (49 \<le> (of_char c :: int) \<and> (of_char c :: int) \<le> 57)"

text \<open>
  A non-negative canonical decimal: digits, or digits, a point and digits, without
  sign, exponent or separators; the integer part is \<open>0\<close> or starts with a digit
  other than \<open>0\<close>, and a fraction part does not end in \<open>0\<close>.
\<close>

definition canonicalDecimal :: "string \<Rightarrow> bool" where
  "canonicalDecimal s =
     (let ip = takeWhile isDigit s; rest = dropWhile isDigit s
      in 0 < length ip \<and> (ip = ''0'' \<or> nonzeroDigit (hd ip)) \<and>
         (rest = [] \<or>
          (hd rest = CHR ''.'' \<and> 0 < length (tl rest) \<and> list_all isDigit (tl rest) \<and>
           nonzeroDigit (last (tl rest)))))"

text \<open>
  What the amount of an emitted record can be: a canonical decimal, or the rendering
  of NaN or of positive infinity.
\<close>

definition emittedAmount :: "string \<Rightarrow> bool" where
  "emittedAmount a = (canonicalDecimal a \<or> a = ''NaN'' \<or> a = ''+Inf'')"

text \<open>A record of three fields whose amount is as above.\<close>

definition recordOK :: "string list \<Rightarrow> bool" where
  "recordOK r = (length r = 3 \<and> emittedAmount (r ! 2))"

definition writerOK :: "writer \<Rightarrow> bool" where
  "writerOK w = list_all recordOK (records w)"

text \<open>
  What the specification says a row contributes: nothing when it is skipped; otherwise
  one record of reference, memo and amount, for the credit bucket (\<open>True\<close>) with the
  rendering of the negated amount when the cleaned amount starts with \<open>-\<close>, and for
  the debit bucket (\<open>False\<close>) with the rendering of the amount otherwise.
\<close>

definition rowRecord :: "nat \<Rightarrow> row \<Rightarrow> (bool \<times> string list) option" where
  "rowRecord rowIndex row =
     (if skipRow rowIndex row then None
      else case ParseFloat (cleanedAmount row) of
             Inl err \<Rightarrow> None
           | Inr amount \<Rightarrow>
               if HasPrefix (cleanedAmount row) ''-''
               then Some (True, [row ! 0, row ! 24, FormatFloat (negate amount)])
               else Some (False, [row ! 0, row ! 24, FormatFloat amount]))"

text \<open>
  The records that the rows of a sheet contribute to one bucket, in the order of the
  rows; \<open>rowIndex\<close> is the index of the first row.
\<close>

fun bucketRecords :: "bool \<Rightarrow> nat \<Rightarrow> row list \<Rightarrow> string list list" where
  "bucketRecords credit rowIndex [] = []"
| "bucketRecords credit rowIndex (row # rows) =
     (case rowRecord rowIndex row of
        None \<Rightarrow> []
      | Some (c, rcd) \<Rightarrow> if c = credit then [rcd] else []) @
     bucketRecords credit (Suc rowIndex) rows"

text \<open>A writer after more records were written to it.\<close>

definition addRecords :: "writer \<Rightarrow> string list list \<Rightarrow> writer" where
  "addRecords w rcds = w\<lparr>buffered := buffered w @ rcds\<rparr>"

text \<open>
  A sheet of 41 rows whose rows 2, 4, 6, 8, 10 and 12 are left by the trim at the
  indexes 0 to 5: a data row at index 0, a row of three cells, rows with the amounts
  \<open>Amount\<close>, empty and \<open>abc\<close>, and a data row with the amount \<open>-100\<close>.
\<close>

definition skippedRows :: "row list" where
  "skippedRows =
     [dataRow ''-7'', shortRow, dataRow ''Amount'', dataRow [], dataRow ''abc'',
      dataRow ''-100''] @ replicate 7 [''FOOTER'']"

definition skipSheet :: sheet where
  "skipSheet =
     \<lparr>mergeCells = [],
      sheetRows =
        [[''HEADER''], dataRow ''-7'', [''HEADER''], shortRow, [''HEADER''],
         dataRow ''Amount'', [''HEADER''], dataRow [], [''HEADER''], dataRow ''abc'',
         [''HEADER''], dataRow ''-100''] @ replicate 29 [''FOOTER'']\<rparr>"

text \<open>
  Notions for the round trip of the amounts.  \<open>fracVal q\<close> is the real number that
  the fraction \<open>q\<close> stands for, and \<open>rne v\<close> is the integer nearest to the real
  number \<open>v\<close>, the even one of the two when \<open>v\<close> lies half way.
\<close>

definition fracVal :: "int \<times> int \<Rightarrow> real" where
  "fracVal q = real_of_int (fst q) / real_of_int (snd q)"

definition rne :: "real \<Rightarrow> int" where
  "rne v =
     (if v - of_int \<lfloor>v\<rfloor> < 1 / 2 then \<lfloor>v\<rfloor>
      else if 1 / 2 < v - of_int \<lfloor>v\<rfloor> then \<lfloor>v\<rfloor> + 1
      else if even \<lfloor>v\<rfloor> then \<lfloor>v\<rfloor> else \<lfloor>v\<rfloor> + 1)"

text \<open>
  The binary exponent that \<open>roundToFloat64\<close> chooses for \<open>num / den\<close> before it
  rounds (the \<open>e1\<close> of its definition), and what characterises it: the scaled number
  is below \<open>2^53\<close>, and it is at least \<open>2^52\<close> unless the exponent is the least one.
\<close>

definition chosenExp :: "int \<Rightarrow> int \<Rightarrow> int" where
  "chosenExp num den =
     (let l = int (bitLen num) - int (bitLen den);
          e0 = max (l - 53) (- 1074);
          q0 = scaleBy2 num den e0
      in if 2 ^ 53 \<le> fst q0 div snd q0 then e0 + 1 else e0)"

definition expOK :: "real \<Rightarrow> int \<Rightarrow> bool" where
  "expOK v a = (- 1074 \<le> a \<and> v / 2 powi a < 2 ^ 53 \<and> (2 ^ 52 \<le> v / 2 powi a \<or> a = - 1074))"

text \<open>
  The mantissa and exponent of a positive binary64 number: a normal number has a
  mantissa of 53 bits, a subnormal number has the least exponent.
\<close>

definition validNum :: "int \<Rightarrow> int \<Rightarrow> bool" where
  "validNum m e = (0 < m \<and> m < 2 ^ 53 \<and> - 1074 \<le> e \<and> e \<le> 971 \<and> (2 ^ 52 \<le> m \<or> e = - 1074))"

text \<open>The number that a string of decimal digits stands for.\<close>

definition digitsVal :: "string \<Rightarrow> int" where
  "digitsVal ds = foldl (\<lambda>a c. a * 10 + digitVal c) 0 ds"

text \<open>
  An amount is stable when it parses, and rendering the parsed number gives the same
  text again (lines 90 and 96 applied to the amount once more).
\<close>

definition stableAmount :: "string \<Rightarrow> bool" where
  "stableAmount a = (case ParseFloat a of Inl err \<Rightarrow> False | Inr v \<Rightarrow> FormatFloat v = a)"

definition recordStable :: "string list \<Rightarrow> bool" where
  "recordStable r = (length r = 3 \<and> stableAmount (r ! 2))"

definition writerStable :: "writer \<Rightarrow> bool" where
  "writerStable w = list_all recordStable (records w)"

section \<open>Properties of the row loop\<close>

lemma ParseFloat_empty: "ParseFloat [] = Inl ErrSyntax"
  by code_simp

lemma ParseFloat_Amount: "ParseFloat ''Amount'' = Inl ErrSyntax"
  by code_simp

lemma appendRecord_neq: "appendRecord w rcd \<noteq> w"
proof
  assume "appendRecord w rcd = w"
  then have "buffered (appendRecord w rcd) = buffered w"
    by simp
  then show False
    by (simp add: appendRecord_def)
qed

lemma processRow_skip: "skipRow i row \<Longrightarrow> processRow i row ws = Inr ws"
  by (auto simp: skipRow_def processRow_def cleanedAmount_def Let_def split: sum.splits)

lemma processRow_emit:
  assumes "\<not> skipRow i row"
  shows "\<exists>amount. ParseFloat (cleanedAmount row) = Inr amount \<and>
           processRow i row ws =
             Inr (if HasPrefix (cleanedAmount row) ''-''
                  then (appendRecord (fst ws) [row ! 0, row ! 24, FormatFloat (negate amount)], snd ws)
                  else (fst ws, appendRecord (snd ws) [row ! 0, row ! 24, FormatFloat amount]))"
proof -
  from assms obtain amount where a: "ParseFloat (cleanedAmount row) = Inr amount"
    by (cases "ParseFloat (cleanedAmount row)") (auto simp: skipRow_def)
  from assms a show ?thesis
    by (auto simp: skipRow_def processRow_def cleanedAmount_def Let_def Write_def appendRecord_def)
qed

lemma records_Flush: "records (Flush w) = records w"
  by (simp add: records_def Flush_def)

lemma processRows_all_skipped:
  "(\<forall>k < length rows. skipRow (i + k) (rows ! k)) \<Longrightarrow> processRows i rows ws = Inr ws"
proof (induction rows arbitrary: i)
  case Nil
  then show ?case by simp
next
  case (Cons row rows)
  from Cons.prems have "skipRow (i + 0) ((row # rows) ! 0)"
    by blast
  then have first: "processRow i row ws = Inr ws"
    by (simp add: processRow_skip)
  have "\<forall>k < length rows. skipRow (Suc i + k) (rows ! k)"
  proof (intro allI impI)
    fix k assume "k < length rows"
    then have "Suc k < length (row # rows)" by simp
    with Cons.prems have "skipRow (i + Suc k) ((row # rows) ! Suc k)" by blast
    then show "skipRow (Suc i + k) (rows ! k)" by simp
  qed
  then have "processRows (Suc i) rows ws = Inr ws"
    by (rule Cons.IH)
  with first show ?case by simp
qed

lemma processSheet_rows:
  assumes "processSheet f name ws = Inr (f', ws')" and "GetRows f' name = Inr rows"
  shows "(rows = [] \<and> ws' = ws) \<or>
         (\<exists>ws1. processRows 0 rows ws = Inr ws1 \<and> ws' = (Flush (fst ws1), Flush (snd ws1)))"
  using assms
  by (auto simp: processSheet_def split: sum.splits if_splits)

lemma addRecords_Nil: "addRecords w [] = w"
  by (simp add: addRecords_def)

lemma addRecords_append: "addRecords (addRecords w a) b = addRecords w (a @ b)"
  by (simp add: addRecords_def)

lemma appendRecord_addRecords: "appendRecord w rcd = addRecords w [rcd]"
  by (simp add: addRecords_def appendRecord_def)

lemma records_Flush_addRecords: "records (Flush (addRecords w rcds)) = records w @ rcds"
  by (simp add: records_def Flush_def addRecords_def)

lemma processRow_rowRecord:
  "processRow i row ws =
     Inr (case rowRecord i row of
            None \<Rightarrow> ws
          | Some (c, rcd) \<Rightarrow>
              if c then (addRecords (fst ws) [rcd], snd ws)
              else (fst ws, addRecords (snd ws) [rcd]))"
proof (cases "skipRow i row")
  case True
  then show ?thesis
    by (simp add: processRow_skip rowRecord_def)
next
  case False
  from processRow_emit [OF False, of ws] obtain amount where
    "ParseFloat (cleanedAmount row) = Inr amount" and
    "processRow i row ws =
       Inr (if HasPrefix (cleanedAmount row) ''-''
            then (appendRecord (fst ws) [row ! 0, row ! 24, FormatFloat (negate amount)], snd ws)
            else (fst ws, appendRecord (snd ws) [row ! 0, row ! 24, FormatFloat amount]))"
    by blast
  with False show ?thesis
    by (simp add: rowRecord_def appendRecord_addRecords)
qed

lemma processRows_bucketRecords:
  "processRows i rows ws =
     Inr (addRecords (fst ws) (bucketRecords True i rows),
          addRecords (snd ws) (bucketRecords False i rows))"
proof (induction rows arbitrary: i ws)
  case Nil
  then show ?case
    by (simp add: addRecords_Nil)
next
  case (Cons row rows)
  show ?case
  proof (cases "rowRecord i row")
    case None
    then show ?thesis
      by (simp add: processRow_rowRecord Cons.IH)
  next
    case (Some p)
    then obtain c rcd where "rowRecord i row = Some (c, rcd)"
      by (cases p) simp
    then show ?thesis
      by (simp add: processRow_rowRecord Cons.IH addRecords_append addRecords_Nil)
  qed
qed

lemma processSheet_records:
  assumes "processSheet f name ws = Inr (f1, ws1)" and "GetRows f1 name = Inr rows"
  shows "records (fst ws1) = records (fst ws) @ bucketRecords True 0 rows \<and>
         records (snd ws1) = records (snd ws) @ bucketRecords False 0 rows"
  using processSheet_rows [OF assms]
  by (auto simp: processRows_bucketRecords records_Flush_addRecords)

text \<open>
  Claim C5.  A row of the extraction loop never ends the transform; it leaves both
  writers as they were exactly when the row index is 0, or the row has fewer than 39
  cells, or the cleaned amount is empty, is the word \<open>Amount\<close>, or does not parse,
  and then it contributes no record.  The loop over the rows never fails and writes
  exactly the records of the rows that are not skipped, in their order, whatever rows
  were skipped before them.  After a sheet the loop over the sheets goes on with the
  next sheet, on writers that hold the records so far and those of the rows of the
  sheet that are not skipped.
\<close>

theorem rows_skipped_and_continued:
  "(\<exists>ws'. processRow i row ws = Inr ws') \<and>
   (processRow i row ws = Inr ws \<longleftrightarrow> skipRow i row) \<and>
   (skipRow i row \<longrightarrow> rowRecord i row = None) \<and>
   processRows j rows ws =
     Inr (addRecords (fst ws) (bucketRecords True j rows),
          addRecords (snd ws) (bucketRecords False j rows)) \<and>
   (processSheet f name ws = Inr (fnext, wsnext) \<longrightarrow>
      sheetLoop f (name # names) ws = sheetLoop fnext names wsnext) \<and>
   (processSheet f name ws = Inr (fnext, wsnext) \<and> GetRows fnext name = Inr trimmed \<longrightarrow>
      records (fst wsnext) = records (fst ws) @ bucketRecords True 0 trimmed \<and>
      records (snd wsnext) = records (snd ws) @ bucketRecords False 0 trimmed)"
proof -
  have never: "\<exists>ws'. processRow i row ws = Inr ws'"
    by (simp add: processRow_rowRecord)
  have iff: "processRow i row ws = Inr ws \<longleftrightarrow> skipRow i row"
  proof (cases "skipRow i row")
    case True
    then show ?thesis
      by (simp add: processRow_skip)
  next
    case False
    from processRow_emit [OF False, of ws] obtain amount where
      r: "processRow i row ws =
            Inr (if HasPrefix (cleanedAmount row) ''-''
                 then (appendRecord (fst ws) [row ! 0, row ! 24, FormatFloat (negate amount)], snd ws)
                 else (fst ws, appendRecord (snd ws) [row ! 0, row ! 24, FormatFloat amount]))"
      by blast
    have "processRow i row ws \<noteq> Inr ws"
      using r appendRecord_neq by (cases ws) (auto split: if_splits)
    with False show ?thesis
      by simp
  qed
  have none: "skipRow i row \<longrightarrow> rowRecord i row = None"
    by (simp add: rowRecord_def)
  have sheets: "processSheet f name ws = Inr (fnext, wsnext) \<longrightarrow>
      sheetLoop f (name # names) ws = sheetLoop fnext names wsnext"
    by simp
  from never iff none processRows_bucketRecords sheets processSheet_records show ?thesis
    by blast
qed

text \<open>
  Claim C1.  A row that is retained (index not 0, at least 39 cells) and whose cleaned
  amount parses to \<open>amount\<close> writes exactly one record: to the credit writer, with
  the rendering of the negated amount, when the cleaned amount starts with \<open>-\<close>,
  and the debit writer is unchanged; otherwise to the debit writer, with the rendering
  of the amount, and the credit writer is unchanged.
\<close>

theorem row_bucket:
  assumes "rowIndex \<noteq> 0" and "39 \<le> length row"
    and "ParseFloat (cleanedAmount row) = Inr amount"
  shows "processRow rowIndex row (creditWriter, debitWriter) =
           Inr (if HasPrefix (cleanedAmount row) ''-''
                then (appendRecord creditWriter [row ! 0, row ! 24, FormatFloat (negate amount)],
                      debitWriter)
                else (creditWriter,
                      appendRecord debitWriter [row ! 0, row ! 24, FormatFloat amount]))"
proof -
  from assms(3) have "cleanedAmount row \<noteq> []" and "cleanedAmount row \<noteq> ''Amount''"
    using ParseFloat_empty ParseFloat_Amount by auto
  with assms have "\<not> skipRow rowIndex row"
    by (simp add: skipRow_def)
  from processRow_emit [OF this, of "(creditWriter, debitWriter)"] assms(3) show ?thesis
    by auto
qed


text \<open>
  Claim C1, witness: the raw amount \<open>-1,234.50\<close> gives a credit record with the
  amount \<open>1234.5\<close>, the raw amount \<open>500\<close> a debit record with the amount \<open>500\<close>.
\<close>

theorem row_bucket_witness:
  "39 \<le> length (dataRow ''-1,234.50'') \<and>
   ParseFloat (cleanedAmount (dataRow ''-1,234.50'')) = Inr (Num True 5429388417957888 (- 42)) \<and>
   processRow 1 (dataRow ''-1,234.50'') (NewWriter, NewWriter) =
     Inr (appendRecord NewWriter [''REF1'', ''MEMO1'', ''1234.5''], NewWriter) \<and>
   ParseFloat (cleanedAmount (dataRow ''500'')) = Inr (Num False 8796093022208000 (- 44)) \<and>
   processRow 1 (dataRow ''500'') (NewWriter, NewWriter) =
     Inr (NewWriter, appendRecord NewWriter [''REF1'', ''MEMO1'', ''500''])"
proof -
  have l1: "39 \<le> length (dataRow ''-1,234.50'')" and l2: "39 \<le> length (dataRow ''500'')"
    by (simp_all add: dataRow_def)
  have p1: "ParseFloat (cleanedAmount (dataRow ''-1,234.50'')) =
              Inr (Num True 5429388417957888 (- 42))"
    by code_simp
  have p2: "ParseFloat (cleanedAmount (dataRow ''500'')) = Inr (Num False 8796093022208000 (- 44))"
    by code_simp
  have h1: "HasPrefix (cleanedAmount (dataRow ''-1,234.50'')) ''-''"
    and h2: "\<not> HasPrefix (cleanedAmount (dataRow ''500'')) ''-''"
    by code_simp+
  have f1: "FormatFloat (Num False 5429388417957888 (- 42)) = ''1234.5''"
    and f2: "FormatFloat (Num False 8796093022208000 (- 44)) = ''500''"
    by code_simp+
  have c: "dataRow a ! 0 = ''REF1''" "dataRow a ! 24 = ''MEMO1''" for a
    by (simp_all add: dataRow_def nth_append)
  have n: "(1::nat) \<noteq> 0"
    by simp
  have r1: "processRow 1 (dataRow ''-1,234.50'') (NewWriter, NewWriter) =
              Inr (appendRecord NewWriter [''REF1'', ''MEMO1'', ''1234.5''], NewWriter)"
    using row_bucket [OF n l1 p1, of NewWriter NewWriter] by (simp add: h1 f1 c)
  have r2: "processRow 1 (dataRow ''500'') (NewWriter, NewWriter) =
              Inr (NewWriter, appendRecord NewWriter [''REF1'', ''MEMO1'', ''500''])"
    using row_bucket [OF n l2 p2, of NewWriter NewWriter] by (simp add: h2 f2 c)
  from l1 p1 r1 p2 r2 show ?thesis
    by blast
qed

text \<open>
  Claim C5, witness: a row of three cells at index 1 is skipped; of the rows left by the
  trim of the first sheet, the row at index 0, the short row and the rows with the
  amounts \<open>Amount\<close>, empty and \<open>abc\<close> are skipped, and the data row after them is
  written; the second sheet is processed after the first, and its record is in the
  Ledger.
\<close>

theorem rows_skipped_and_continued_witness:
  "skipRow 1 shortRow \<and>
   processRow 1 shortRow (NewWriter, NewWriter) = Inr (NewWriter, NewWriter) \<and>
   rowRecord 1 shortRow = None \<and>
   processRows 0 skippedRows (NewWriter, NewWriter) =
     Inr (addRecords NewWriter [[''REF1'', ''MEMO1'', ''100'']], addRecords NewWriter []) \<and>
   processSheet [(''A'', skipSheet), (''B'', singleRecordSheet ''500'')] ''A''
       (NewWriter, NewWriter) =
     Inr ([(''A'', \<lparr>mergeCells = [], sheetRows = skippedRows\<rparr>),
           (''B'', singleRecordSheet ''500'')],
          \<lparr>buffered = [], flushed = [[''REF1'', ''MEMO1'', ''100'']]\<rparr>, NewWriter) \<and>
   GetRows [(''A'', \<lparr>mergeCells = [], sheetRows = skippedRows\<rparr>),
            (''B'', singleRecordSheet ''500'')] ''A'' = Inr skippedRows \<and>
   sheetLoop [(''A'', skipSheet), (''B'', singleRecordSheet ''500'')] [''A'', ''B'']
       (NewWriter, NewWriter) =
     sheetLoop [(''A'', \<lparr>mergeCells = [], sheetRows = skippedRows\<rparr>),
                (''B'', singleRecordSheet ''500'')] [''B'']
       (\<lparr>buffered = [], flushed = [[''REF1'', ''MEMO1'', ''100'']]\<rparr>, NewWriter) \<and>
   records \<lparr>buffered = [], flushed = [[''REF1'', ''MEMO1'', ''100'']]\<rparr> =
     records NewWriter @ [[''REF1'', ''MEMO1'', ''100'']] \<and>
   ledger (book [(''A'', skipSheet), (''B'', singleRecordSheet ''500'')]) ''book.xlsx'' =
     Inr (\<lparr>buffered = [], flushed = [[''REF1'', ''MEMO1'', ''100'']]\<rparr>,
          \<lparr>buffered = [], flushed = [[''REF1'', ''MEMO1'', ''500'']]\<rparr>)"
proof -
  let ?f = "[(''A'', skipSheet), (''B'', singleRecordSheet ''500'')]"
  let ?f1 = "[(''A'', \<lparr>mergeCells = [], sheetRows = skippedRows\<rparr>),
              (''B'', singleRecordSheet ''500'')]"
  let ?w = "\<lparr>buffered = [], flushed = [[''REF1'', ''MEMO1'', ''100'']]\<rparr>"
  note t = rows_skipped_and_continued
    [where i = 1 and row = shortRow and ws = "(NewWriter, NewWriter)" and j = 0
       and rows = skippedRows and f = ?f and name = "''A''" and fnext = ?f1
       and wsnext = "(?w, NewWriter)" and names = "[''B'']" and trimmed = skippedRows]
  have s: "skipRow 1 shortRow"
    by (simp add: skipRow_def shortRow_def)
  have c: "bucketRecords True 0 skippedRows = [[''REF1'', ''MEMO1'', ''100'']]"
    by code_simp
  have d: "bucketRecords False 0 skippedRows = []"
    by code_simp
  have p: "processSheet ?f ''A'' (NewWriter, NewWriter) = Inr (?f1, ?w, NewWriter)"
    by code_simp
  have g: "GetRows ?f1 ''A'' = Inr skippedRows"
    by code_simp
  have l: "ledger (book ?f) ''book.xlsx'' =
     Inr (?w, \<lparr>buffered = [], flushed = [[''REF1'', ''MEMO1'', ''500'']]\<rparr>)"
    by code_simp
  from s t have a1: "processRow 1 shortRow (NewWriter, NewWriter) = Inr (NewWriter, NewWriter)"
    by blast
  from s t have a2: "rowRecord 1 shortRow = None"
    by blast
  from t have a3: "processRows 0 skippedRows (NewWriter, NewWriter) =
     Inr (addRecords NewWriter [[''REF1'', ''MEMO1'', ''100'']], addRecords NewWriter [])"
    by (simp add: c d)
  from t p have a4: "sheetLoop ?f [''A'', ''B''] (NewWriter, NewWriter) =
      sheetLoop ?f1 [''B''] (?w, NewWriter)"
    by blast
  from t p g have a5: "records ?w = records NewWriter @ [[''REF1'', ''MEMO1'', ''100'']]"
    by (simp add: c)
  from s a1 a2 a3 p g a4 a5 l show ?thesis
    by blast
qed

section \<open>The trim of the header and footer rows\<close>

text \<open>
  Claim C2, evaluated on a sheet of 60 rows labelled 1 to 60.  Each removal shifts the
  rows below it up, while the loop index moves on, so the first loop removes the rows
  1, 3, \<dots>, 49 and the second loop every second row of what is then the tail: the rows
  that survive are 2, 4, \<dots>, 42, 46, 50, 52, \<dots>, 60, not the rows 26 to 46.
\<close>

theorem trim_keeps_alternate_rows:
  "processSheet [(''Sheet1'', sheet60)] ''Sheet1'' (NewWriter, NewWriter) =
     Inr ([(''Sheet1'',
            \<lparr>mergeCells = [],
             sheetRows = map labelRow
               [2, 4, 6, 8, 10, 12, 14, 16, 18, 20, 22, 24, 26, 28, 30, 32, 34, 36, 38, 40,
                42, 46, 50, 52, 54, 56, 58, 60]\<rparr>)],
          NewWriter, NewWriter)"
  by code_simp

text \<open>
  Claim C3, evaluated on the workbook of the claim: 26 header rows, the data row with
  \<open>REF1\<close>, \<open>MEMO1\<close> and \<open>-100\<close>, and 14 footer rows.  The data row is row 27
  and is removed by the first loop; both outputs are empty.
\<close>

theorem end_to_end_example_empty:
  "CleanSpreadsheet (book [(''Sheet1'', sheet41)]) ''book.xlsx'' = Inr ([], [])"
  by code_simp

text \<open>
  Claim C6, evaluated on a workbook whose only sheet has no rows: the second loop
  starts at row number \<open>0 - 14 + 1\<close>, which the library rejects, and the transform
  returns that error before the test for an empty sheet is reached.
\<close>

theorem empty_sheet_is_fatal:
  "CleanSpreadsheet (book [(''Sheet1'', emptySheet)]) ''book.xlsx'' =
     Inl (ErrInvalidRowNumber (- 13))"
  by code_simp

section \<open>The response of the gateway\<close>

text \<open>
  Claim C9.  For a POST request with a form file, when the temporary file can be
  created and filled, the response can be written and the transform returns the two
  texts: the response is the archive of exactly the two entries \<open>credits.csv\<close> and
  \<open>debits.csv\<close> with these texts, unless both texts are empty, in which case the
  request fails and there is no archive.
\<close>

theorem upload_response:
  assumes "httpMethod r = ''POST''" and "formFile r = Some upload"
    and "createTempOK env" and "copyOK env" and "responseWriteOK env"
    and "CleanSpreadsheet ((files env)(tempName env \<mapsto> upload)) (tempName env) =
           Inr (creditCSV, debitCSV)"
  shows "uploadHandler env r =
           (if creditCSV = [] \<and> debitCSV = []
            then Failure 500 ''No data processed from the file''
            else Archive [(''credits.csv'', creditCSV), (''debits.csv'', debitCSV)])"
  using assms by (simp add: uploadHandler_def zipCreate_def zipWrite_def zipClose_def)

text \<open>
  Claim C9, witness: an upload with one credit record gives the archive, with an
  empty \<open>debits.csv\<close>; an upload of a workbook without sheets fails.
\<close>

theorem upload_response_witness:
  "uploadHandler uploadEnv (uploadOf [(''Sheet1'', singleRecordSheet ''-100'')]) =
     Archive [(''credits.csv'', ''REF1,MEMO1,100'' @ [CHR 0x0A]),
              (''debits.csv'', [])] \<and>
   uploadHandler uploadEnv (uploadOf []) = Failure 500 ''No data processed from the file''"
proof -
  have e: "httpMethod (uploadOf f) = ''POST''" "formFile (uploadOf f) = Some (XlsxBlob f)"
    "createTempOK uploadEnv" "copyOK uploadEnv" "responseWriteOK uploadEnv" for f
    by (simp_all add: uploadOf_def uploadEnv_def)
  have c1: "CleanSpreadsheet
              ((files uploadEnv)(tempName uploadEnv \<mapsto> XlsxBlob [(''Sheet1'', singleRecordSheet ''-100'')]))
              (tempName uploadEnv) =
            Inr (''REF1,MEMO1,100'' @ [CHR 0x0A], [])"
    by code_simp
  have c2: "CleanSpreadsheet ((files uploadEnv)(tempName uploadEnv \<mapsto> XlsxBlob []))
              (tempName uploadEnv) = Inr ([], [])"
    by code_simp
  have r1: "uploadHandler uploadEnv (uploadOf [(''Sheet1'', singleRecordSheet ''-100'')]) =
     Archive [(''credits.csv'', ''REF1,MEMO1,100'' @ [CHR 0x0A]),
              (''debits.csv'', [])]"
    using upload_response [OF e(1) e(2) e(3) e(4) e(5) c1] by simp
  have r2: "uploadHandler uploadEnv (uploadOf []) = Failure 500 ''No data processed from the file''"
    using upload_response [OF e(1) e(2) e(3) e(4) e(5) c2] by simp
  from r1 r2 show ?thesis
    by blast
qed

section \<open>Sheets that contribute no record\<close>

text \<open>
  Claim C4, as amended.  The test of line 78 is on the number of cells of a row, not on
  the number of rows of the sheet: a sheet in which every row left by the trim, other
  than the row at index 0, has fewer than 39 cells adds no record to either writer.
\<close>

theorem narrow_rows_no_records:
  assumes "processSheet f name ws = Inr (f', ws')"
    and "GetRows f' name = Inr rows"
    and "\<forall>i. 0 < i \<and> i < length rows \<longrightarrow> length (rows ! i) < 39"
  shows "records (fst ws') = records (fst ws) \<and> records (snd ws') = records (snd ws)"
proof -
  have "\<forall>k < length rows. skipRow (0 + k) (rows ! k)"
    using assms(3) by (auto simp: skipRow_def)
  then have "processRows 0 rows ws = Inr ws"
    by (rule processRows_all_skipped)
  with processSheet_rows [OF assms(1) assms(2)] show ?thesis
    by (auto simp: records_Flush)
qed

text \<open>Claim C4, witness: a sheet of 41 rows of three cells.\<close>

theorem narrow_rows_no_records_witness:
  "processSheet [(''Sheet1'', narrowSheet)] ''Sheet1''
     (appendRecord NewWriter [''REF0'', ''MEMO0'', ''1''], NewWriter) =
     Inr ([(''Sheet1'', \<lparr>mergeCells = [], sheetRows = replicate 13 shortRow\<rparr>)],
          \<lparr>buffered = [], flushed = [[''REF0'', ''MEMO0'', ''1'']]\<rparr>, NewWriter) \<and>
   GetRows [(''Sheet1'', \<lparr>mergeCells = [], sheetRows = replicate 13 shortRow\<rparr>)] ''Sheet1'' =
     Inr (replicate 13 shortRow) \<and>
   length shortRow < 39 \<and>
   records \<lparr>buffered = [], flushed = [[''REF0'', ''MEMO0'', ''1'']]\<rparr> =
     records (appendRecord NewWriter [''REF0'', ''MEMO0'', ''1'']) \<and>
   records NewWriter = records NewWriter"
proof -
  have a: "processSheet [(''Sheet1'', narrowSheet)] ''Sheet1''
      (appendRecord NewWriter [''REF0'', ''MEMO0'', ''1''], NewWriter) =
     Inr ([(''Sheet1'', \<lparr>mergeCells = [], sheetRows = replicate 13 shortRow\<rparr>)],
          \<lparr>buffered = [], flushed = [[''REF0'', ''MEMO0'', ''1'']]\<rparr>, NewWriter)"
    by code_simp
  have b: "GetRows [(''Sheet1'', \<lparr>mergeCells = [], sheetRows = replicate 13 shortRow\<rparr>)] ''Sheet1'' =
     Inr (replicate 13 shortRow)"
    by code_simp
  have l: "length shortRow < 39"
    by (simp add: shortRow_def)
  then have c: "\<forall>i. 0 < i \<and> i < length (replicate 13 shortRow) \<longrightarrow>
        length (replicate 13 shortRow ! i) < 39"
    by simp
  from narrow_rows_no_records [OF a b c] a b l show ?thesis
    by simp
qed

text \<open>
  Claim C4, counterexample to the claim as stated: a sheet of 41 equal data rows has 13
  rows after the trim, fewer than 40, and adds 12 records to the credit writer.
\<close>

theorem few_rows_still_emit:
  "processSheet [(''Sheet1'', uniformSheet (dataRow ''-100''))] ''Sheet1'' (NewWriter, NewWriter) =
     Inr ([(''Sheet1'', \<lparr>mergeCells = [], sheetRows = replicate 13 (dataRow ''-100'')\<rparr>)],
          \<lparr>buffered = [], flushed = replicate 12 [''REF1'', ''MEMO1'', ''100'']\<rparr>, NewWriter) \<and>
   length (replicate 13 (dataRow ''-100'')) < 40"
  by code_simp

section \<open>The amounts of the emitted records\<close>

lemma isDigit_digitChar: "0 \<le> d \<Longrightarrow> d < 10 \<Longrightarrow> isDigit (digitChar d)"
  by (simp add: isDigit_def digitChar_def)

lemma digitsOfNat_digits: "0 \<le> n \<Longrightarrow> list_all isDigit (digitsOfNat n)"
proof (induction n rule: digitsOfNat.induct)
  case (1 n)
  show ?case
  proof (cases "n < 10")
    case True
    with "1.prems" show ?thesis
      by (subst digitsOfNat.simps) (simp add: isDigit_digitChar)
  next
    case False
    with "1.prems" have "list_all isDigit (digitsOfNat (n div 10))"
      by (intro "1.IH") auto
    moreover have "isDigit (digitChar (n mod 10))"
      by (rule isDigit_digitChar) auto
    ultimately show ?thesis
      using False by (subst digitsOfNat.simps) simp
  qed
qed

lemma digitsOfNat_nonempty: "digitsOfNat n \<noteq> []"
  by (subst digitsOfNat.simps) simp

lemma trimZeros_digits: "list_all isDigit ds \<Longrightarrow> list_all isDigit (trimZeros ds)"
proof -
  assume a: "list_all isDigit ds"
  have "set (trimZeros ds) \<subseteq> set ds"
    by (auto simp: trimZeros_def dest: set_dropWhileD)
  with a show ?thesis
    by (auto simp: list_all_iff)
qed

lemma point_not_digit: "\<not> isDigit (CHR ''.'')"
  by (simp add: isDigit_def)

lemma isDigit_zero: "isDigit (CHR ''0'')"
  by (simp add: isDigit_def)

lemma fracDigit_digit: "list_all isDigit ds \<Longrightarrow> isDigit (fracDigit ds dp i)"
  by (auto simp: fracDigit_def Let_def list_all_length isDigit_zero)

lemma roundHalfEven_nonneg: "0 \<le> fst q \<Longrightarrow> 0 < snd q \<Longrightarrow> 0 \<le> roundHalfEven q"
  by (simp add: roundHalfEven_def Let_def pos_imp_zdiv_nonneg_iff)

lemma powFrac_sign:
  "0 \<le> m \<Longrightarrow> 0 < b \<Longrightarrow> 0 \<le> fst (powFrac b m ex) \<and> 0 < snd (powFrac b m ex)"
  by (simp add: powFrac_def)

lemma scaleBy10_sign:
  "0 \<le> fst q \<Longrightarrow> 0 < snd q \<Longrightarrow> 0 \<le> fst (scaleBy10 q k) \<and> 0 < snd (scaleBy10 q k)"
  by (simp add: scaleBy10_def)

lemma scaleBy2_sign:
  "0 \<le> num \<Longrightarrow> 0 < den \<Longrightarrow>
   0 \<le> fst (scaleBy2 num den e) \<and> 0 < snd (scaleBy2 num den e)"
  by (simp add: scaleBy2_def)

lemma shortestFrom_nonneg: "0 \<le> m \<Longrightarrow> 0 \<le> fst (shortestFrom n m e)"
proof (induction n m e rule: shortestFrom.induct)
  case (1 n m e)
  let ?k = "decimalExponent (powFrac 2 m e) - int n + 1"
  let ?s = "scaleBy10 (powFrac 2 m e) ?k"
  from "1.prems" have x: "0 \<le> fst (powFrac 2 m e) \<and> 0 < snd (powFrac 2 m e)"
    by (simp add: powFrac_sign)
  then have s: "0 \<le> fst ?s \<and> 0 < snd ?s"
    by (simp add: scaleBy10_sign)
  then have lo: "0 \<le> fst ?s div snd ?s"
    by (simp add: pos_imp_zdiv_nonneg_iff)
  from s have r: "0 \<le> roundHalfEven ?s"
    by (simp add: roundHalfEven_nonneg)
  show ?case
    apply (subst shortestFrom.simps)
    using lo r "1.IH" "1.prems"
    apply (simp add: Let_def)
    done
qed

lemma digits_lower: "1 \<le> q \<Longrightarrow> 10 ^ (length (digitsOfNat q) - 1) \<le> q"
proof (induction q rule: digitsOfNat.induct)
  case (1 n)
  show ?case
  proof (cases "n < 10")
    case True
    with "1.prems" show ?thesis
      by (subst digitsOfNat.simps) simp
  next
    case False
    then have q: "1 \<le> n div 10"
      by simp
    have ne: "digitsOfNat (n div 10) \<noteq> []"
      by (subst digitsOfNat.simps) simp
    from "1.IH" [OF False q] have ih: "10 ^ (length (digitsOfNat (n div 10)) - 1) \<le> n div 10" .
    have len: "length (digitsOfNat n) - 1 = Suc (length (digitsOfNat (n div 10)) - 1)"
      using False ne by (subst digitsOfNat.simps) (cases "digitsOfNat (n div 10)"; simp)
    have "(10::int) ^ (length (digitsOfNat n) - 1) = 10 * 10 ^ (length (digitsOfNat (n div 10)) - 1)"
      by (simp only: len power_Suc)
    also have "\<dots> \<le> 10 * (n div 10)"
      using ih by simp
    also have "\<dots> \<le> n"
      by simp
    finally show ?thesis .
  qed
qed

lemma leadingShift_reaches: "0 < num \<Longrightarrow> den \<le> num * 10 ^ leadingShift num den j"
proof (induction num den j rule: leadingShift.induct)
  case (1 num den j)
  show ?case
  proof (cases "den \<le> num * 10 ^ j")
    case True
    then show ?thesis
      by (subst leadingShift.simps) simp
  next
    case False
    with "1.prems" have "\<not> (num \<le> 0 \<or> den \<le> num * 10 ^ j)"
      by simp
    from "1.IH" [OF this "1.prems"] False "1.prems" show ?thesis
      by (subst leadingShift.simps) simp
  qed
qed

lemma decimalExponent_lower:
  assumes "0 < fst x" and "0 < snd x"
  shows "if 0 \<le> decimalExponent x then snd x * 10 ^ nat (decimalExponent x) \<le> fst x
         else snd x \<le> fst x * 10 ^ nat (- decimalExponent x)"
proof (cases "snd x \<le> fst x")
  case True
  let ?q = "fst x div snd x"
  from True assms(2) have "0 < ?q"
    by (simp add: pos_imp_zdiv_pos_iff)
  then have q: "1 \<le> ?q"
    by simp
  have ne: "digitsOfNat ?q \<noteq> []"
    by (subst digitsOfNat.simps) simp
  from True have p: "decimalExponent x = int (length (digitsOfNat ?q)) - 1"
    by (simp add: decimalExponent_def)
  with ne have p0: "0 \<le> decimalExponent x"
    by (cases "digitsOfNat ?q") simp_all
  from p ne have np: "nat (decimalExponent x) = length (digitsOfNat ?q) - 1"
    by (cases "digitsOfNat ?q") simp_all
  have "snd x * 10 ^ (length (digitsOfNat ?q) - 1) \<le> snd x * ?q"
    using digits_lower [OF q] assms(2) by simp
  also have "\<dots> \<le> fst x"
    using pos_mod_sign [OF assms(2), of "fst x"] mult_div_mod_eq [of "snd x" "fst x"]
    by linarith
  finally show ?thesis
    using p0 np by simp
next
  case False
  then have p: "decimalExponent x = - int (leadingShift (fst x) (snd x) 1)"
    by (simp add: decimalExponent_def)
  have reach: "snd x \<le> fst x * 10 ^ leadingShift (fst x) (snd x) 1"
    using assms(1) by (rule leadingShift_reaches)
  show ?thesis
  proof (cases "leadingShift (fst x) (snd x) 1 = 0")
    case True
    with reach False show ?thesis
      by simp
  next
    case nz: False
    with p have "\<not> 0 \<le> decimalExponent x"
      by simp
    with p reach show ?thesis
      by simp
  qed
qed

lemma scaled_ge_one:
  assumes "0 < fst x" and "0 < snd x" and "k \<le> decimalExponent x"
  shows "snd (scaleBy10 x k) \<le> fst (scaleBy10 x k)"
proof -
  let ?p = "decimalExponent x"
  note low = decimalExponent_lower [OF assms(1,2)]
  show ?thesis
  proof (cases "0 \<le> k")
    case True
    with assms(3) have p: "0 \<le> ?p" and kp: "nat k \<le> nat ?p"
      by simp_all
    have "(10::int) ^ nat k \<le> 10 ^ nat ?p"
      using kp by (intro power_increasing) simp_all
    then have "snd x * 10 ^ nat k \<le> snd x * 10 ^ nat ?p"
      using assms(2) by simp
    also have "\<dots> \<le> fst x"
      using low p by simp
    finally show ?thesis
      using True by (simp add: scaleBy10_def)
  next
    case False
    have one: "(1::int) \<le> 10 ^ j" for j :: nat
      by simp
    have "snd x \<le> fst x * 10 ^ nat (- k)"
    proof (cases "0 \<le> ?p")
      case True
      have "snd x * 1 \<le> snd x * 10 ^ nat ?p"
        using assms(2) one by (intro mult_left_mono) simp_all
      also have "\<dots> \<le> fst x"
        using low True by simp
      also have "fst x * 1 \<le> fst x * 10 ^ nat (- k)"
        using assms(1) one by (intro mult_left_mono) simp_all
      finally show ?thesis
        by simp
    next
      case neg: False
      with assms(3) have "nat (- ?p) \<le> nat (- k)"
        by simp
      then have "(10::int) ^ nat (- ?p) \<le> 10 ^ nat (- k)"
        by (intro power_increasing) simp_all
      then have "fst x * 10 ^ nat (- ?p) \<le> fst x * 10 ^ nat (- k)"
        using assms(1) by simp
      with low neg show ?thesis
        by simp
    qed
    with False show ?thesis
      by (simp add: scaleBy10_def)
  qed
qed

lemma roundHalfEven_ge: "fst q div snd q \<le> roundHalfEven q"
  by (simp add: roundHalfEven_def Let_def)

lemma powFrac_pos: "0 < m \<Longrightarrow> 0 < fst (powFrac 2 m e) \<and> 0 < snd (powFrac 2 m e)"
  by (simp add: powFrac_def)

lemma shortestFrom_pos: "0 < m \<Longrightarrow> 1 \<le> n \<Longrightarrow> 1 \<le> fst (shortestFrom n m e)"
proof (induction n m e rule: shortestFrom.induct)
  case (1 n m e)
  let ?x = "powFrac 2 m e"
  let ?k = "decimalExponent ?x - int n + 1"
  let ?s = "scaleBy10 ?x ?k"
  from "1.prems"(1) have x: "0 < fst ?x" "0 < snd ?x"
    by (simp_all add: powFrac_pos)
  from "1.prems"(2) have "?k \<le> decimalExponent ?x"
    by simp
  from scaled_ge_one [OF x this] have ge: "snd ?s \<le> fst ?s" .
  from x have sp: "0 < snd ?s"
    by (simp add: scaleBy10_def)
  from ge sp have "0 < fst ?s div snd ?s"
    by (simp add: pos_imp_zdiv_pos_iff)
  then have lo: "1 \<le> fst ?s div snd ?s"
    by simp
  with roundHalfEven_ge [of ?s] have r: "1 \<le> roundHalfEven ?s"
    by linarith
  show ?case
    apply (subst shortestFrom.simps)
    using lo r "1.IH" "1.prems"
    apply (simp add: Let_def)
    done
qed

lemma nonzeroDigit_isDigit: "nonzeroDigit c \<Longrightarrow> isDigit c"
  by (simp add: nonzeroDigit_def isDigit_def)

lemma nonzeroDigit_not_zero: "nonzeroDigit c \<Longrightarrow> c \<noteq> CHR ''0''"
  by (auto simp: nonzeroDigit_def)

lemma isDigit_nonzero: "isDigit c \<Longrightarrow> c \<noteq> CHR ''0'' \<Longrightarrow> nonzeroDigit c"
proof -
  assume d: "isDigit c" and n: "c \<noteq> CHR ''0''"
  have "(of_char c :: int) \<noteq> 48"
  proof
    assume "(of_char c :: int) = 48"
    moreover have "(of_char (CHR ''0'') :: int) = 48"
      by simp
    ultimately have "(of_char c :: int) = of_char (CHR ''0'')"
      by simp
    then have "c = CHR ''0''"
      by (simp only: of_char_eq_iff)
    with n show False
      by simp
  qed
  with d show ?thesis
    by (simp add: nonzeroDigit_def isDigit_def)
qed

lemma hd_digitsOfNat: "0 < c \<Longrightarrow> nonzeroDigit (hd (digitsOfNat c))"
proof (induction c rule: digitsOfNat.induct)
  case (1 n)
  show ?case
  proof (cases "n < 10")
    case True
    with "1.prems" show ?thesis
      by (subst digitsOfNat.simps) (simp add: nonzeroDigit_def digitChar_def)
  next
    case False
    then have "0 < n div 10"
      by simp
    from "1.IH" [OF False this] have "nonzeroDigit (hd (digitsOfNat (n div 10)))" .
    then show ?thesis
      using False digitsOfNat_nonempty [of "n div 10"]
      by (subst digitsOfNat.simps) simp
  qed
qed

lemma trimZeros_split: "ds = trimZeros ds @ rev (takeWhile (\<lambda>c. c = CHR ''0'') (rev ds))"
proof -
  let ?t = "takeWhile (\<lambda>c. c = CHR ''0'') (rev ds)"
  let ?d = "dropWhile (\<lambda>c. c = CHR ''0'') (rev ds)"
  have "?t @ ?d = rev ds"
    by (rule takeWhile_dropWhile_id)
  then have "rev (?t @ ?d) = rev (rev ds)"
    by (simp only:)
  then have "rev ?d @ rev ?t = ds"
    by (simp only: rev_append rev_rev_ident)
  then show ?thesis
    by (simp only: trimZeros_def)
qed

lemma trimZeros_canonical:
  assumes "ds \<noteq> []" and "nonzeroDigit (hd ds)" and "list_all isDigit ds"
  shows "trimZeros ds \<noteq> []" and "hd (trimZeros ds) = hd ds"
    and "nonzeroDigit (last (trimZeros ds))"
proof -
  let ?d = "dropWhile (\<lambda>c. c = CHR ''0'') (rev ds)"
  from assms(1) have "hd ds \<in> set (rev ds)"
    by simp
  moreover from assms(2) have "hd ds \<noteq> CHR ''0''"
    by (rule nonzeroDigit_not_zero)
  ultimately have dne: "?d \<noteq> []"
    by (auto simp: dropWhile_eq_Nil_conv)
  then show ne: "trimZeros ds \<noteq> []"
    by (simp add: trimZeros_def)
  from trimZeros_split [of ds] ne show "hd (trimZeros ds) = hd ds"
    by (metis hd_append2)
  from dne have nz: "hd ?d \<noteq> CHR ''0''"
    by (rule hd_dropWhile)
  from dne have "hd ?d \<in> set ?d"
    by simp
  then have "hd ?d \<in> set ds"
    by (auto dest: set_dropWhileD)
  with assms(3) have "isDigit (hd ?d)"
    by (simp add: list_all_iff)
  with nz have "nonzeroDigit (hd ?d)"
    by (simp add: isDigit_nonzero)
  moreover from dne have "last (trimZeros ds) = hd ?d"
    by (simp add: trimZeros_def last_rev)
  ultimately show "nonzeroDigit (last (trimZeros ds))"
    by simp
qed

lemma canonicalDecimal_digits:
  assumes "list_all isDigit ip" and "ip \<noteq> []" and "ip = ''0'' \<or> nonzeroDigit (hd ip)"
  shows "canonicalDecimal ip"
proof -
  from assms(1) have all: "\<forall>c \<in> set ip. isDigit c"
    by (simp add: list_all_iff)
  then have tw: "takeWhile isDigit ip = ip" and dw: "dropWhile isDigit ip = []"
    by simp_all
  show ?thesis
    unfolding canonicalDecimal_def Let_def tw dw using assms(2,3) by simp
qed

lemma canonicalDecimal_point:
  assumes "list_all isDigit ip" and "ip \<noteq> []" and "ip = ''0'' \<or> nonzeroDigit (hd ip)"
    and "list_all isDigit fp" and "fp \<noteq> []" and "nonzeroDigit (last fp)"
  shows "canonicalDecimal (ip @ CHR ''.'' # fp)"
proof -
  from assms(1) have all: "\<forall>c \<in> set ip. isDigit c"
    by (simp add: list_all_iff)
  then have tw: "takeWhile isDigit (ip @ CHR ''.'' # fp) = ip"
    and dw: "dropWhile isDigit (ip @ CHR ''.'' # fp) = CHR ''.'' # fp"
    by (simp_all add: takeWhile_append2 dropWhile_append2 point_not_digit)
  show ?thesis
    unfolding canonicalDecimal_def Let_def tw dw using assms by simp
qed

lemma fmtF_canonical:
  assumes "ds \<noteq> []" and "list_all isDigit ds" and "nonzeroDigit (hd ds)"
    and "nonzeroDigit (last ds)"
  shows "canonicalDecimal (fmtF False ds dp (nat (int (length ds) - dp)))"
proof -
  let ?prec = "nat (int (length ds) - dp)"
  let ?ip = "(if 0 < dp
      then take (nat dp) ds @ replicate (nat dp - length ds) (CHR ''0'')
      else ''0'')"
  let ?fp = "map (fracDigit ds dp) [0..<?prec]"
  have ip: "list_all isDigit ?ip"
    using assms(2) by (auto simp: list_all_iff isDigit_zero dest: in_set_takeD)
  have ipne: "?ip \<noteq> []"
    using assms(1) by simp
  have iphd: "?ip = ''0'' \<or> nonzeroDigit (hd ?ip)"
  proof (cases "0 < dp")
    case True
    then have "take (nat dp) ds \<noteq> []"
      using assms(1) by simp
    then have "hd ?ip = hd (take (nat dp) ds)"
      using True by simp
    also have "\<dots> = hd ds"
      using True assms(1) by (cases ds; cases "nat dp") simp_all
    finally show ?thesis
      using assms(3) by simp
  next
    case False
    then show ?thesis
      by simp
  qed
  have fp: "list_all isDigit ?fp"
    using assms(2) by (simp add: list_all_iff fracDigit_digit)
  show ?thesis
  proof (cases "0 < ?prec")
    case True
    then have fpne: "?fp \<noteq> []"
      by simp
    from True have "last ?fp = fracDigit ds dp (?prec - 1)"
      by (simp add: last_map last_upt)
    also have "\<dots> = ds ! (length ds - 1)"
    proof -
      from True have "dp + int (?prec - 1) = int (length ds) - 1"
        by simp
      moreover from assms(1) have "0 \<le> int (length ds) - 1" and "int (length ds) - 1 < int (length ds)"
        by (cases ds; simp)+
      moreover have "nat (int (length ds) - 1) = length ds - 1"
        by simp
      ultimately show ?thesis
        by (simp add: fracDigit_def Let_def)
    qed
    also have "\<dots> = last ds"
      using assms(1) by (simp add: last_conv_nth)
    finally have "nonzeroDigit (last ?fp)"
      using assms(4) by simp
    from canonicalDecimal_point [OF ip ipne iphd fp fpne this] True show ?thesis
      by (simp add: fmtF_def)
  next
    case False
    with canonicalDecimal_digits [OF ip ipne iphd] show ?thesis
      by (simp add: fmtF_def)
  qed
qed

lemma FormatFloat_canonical: "0 \<le> m \<Longrightarrow> canonicalDecimal (FormatFloat (Num False m e))"
proof (cases "m = 0")
  case True
  have "canonicalDecimal ''0''"
    by (rule canonicalDecimal_digits) (simp_all add: isDigit_zero)
  with True show ?thesis
    by (simp add: FormatFloat_def shortest_def fmtF_def)
next
  case False
  assume "0 \<le> m"
  with False have m: "0 < m"
    by simp
  obtain c k where ck: "shortestFrom 1 m e = (c, k)"
    by (cases "shortestFrom 1 m e")
  with shortestFrom_pos [OF m, of 1 e] have c: "0 < c"
    by simp
  let ?ds0 = "digitsOfNat c"
  have d0: "list_all isDigit ?ds0"
    using c by (intro digitsOfNat_digits) simp
  note tz = trimZeros_canonical [OF digitsOfNat_nonempty hd_digitsOfNat [OF c] d0]
  have "canonicalDecimal
          (fmtF False (trimZeros ?ds0) (int (length ?ds0) + k)
             (nat (int (length (trimZeros ?ds0)) - (int (length ?ds0) + k))))"
  proof (rule fmtF_canonical)
    show "trimZeros ?ds0 \<noteq> []"
      by (rule tz(1))
    show "list_all isDigit (trimZeros ?ds0)"
      using d0 by (rule trimZeros_digits)
    show "nonzeroDigit (hd (trimZeros ?ds0))"
      using tz(2) hd_digitsOfNat [OF c] by simp
    show "nonzeroDigit (last (trimZeros ?ds0))"
      by (rule tz(3))
  qed
  with ck False show ?thesis
    by (simp add: FormatFloat_def shortest_def)
qed

lemma roundToFloat64_sign:
  assumes "0 \<le> num" and "0 < den" and "roundToFloat64 neg num den = Inr v"
  shows "\<exists>m e. v = Num neg m e \<and> 0 \<le> m"
proof -
  have "0 \<le> roundHalfEven (scaleBy2 num den e)" for e
    using assms(1,2) by (simp add: roundHalfEven_nonneg scaleBy2_sign)
  with assms(3) show ?thesis
    by (auto simp: roundToFloat64_def Let_def split: if_splits)
qed

lemma digitVal_nonneg: "isDigit c \<Longrightarrow> 0 \<le> digitVal c"
  by (simp add: isDigit_def digitVal_def)

lemma hexLetterVal_nonneg: "isHexLetter c \<Longrightarrow> 0 \<le> hexLetterVal c"
  by (auto simp: isHexLetter_def hexLetterVal_def)

lemma readMantissa_nonneg:
  "readMantissa hex s (sd, sg, nd, dp, m) = ((sd', sg', nd', dp', m'), rest) \<Longrightarrow>
   0 \<le> m \<Longrightarrow> 0 \<le> m'"
proof (induction s arbitrary: sd sg nd dp m)
  case Nil
  then show ?case by simp
next
  case (Cons c cs)
  have d: "isDigit c \<Longrightarrow> 0 \<le> m * (if hex then 16 else 10) + digitVal c"
    using Cons.prems(2) by (simp add: digitVal_nonneg)
  have h: "isHexLetter c \<Longrightarrow> 0 \<le> m * 16 + hexLetterVal c"
    using Cons.prems(2) by (simp add: hexLetterVal_nonneg)
  from Cons.prems(1) consider
      (skip) "readMantissa hex cs (sd, sg, nd, dp, m) = ((sd', sg', nd', dp', m'), rest)"
    | (stop) "m' = m"
    | (point) "readMantissa hex cs (True, sg, nd, int nd, m) = ((sd', sg', nd', dp', m'), rest)"
    | (zero) "readMantissa hex cs (sd, True, nd, dp - 1, m) = ((sd', sg', nd', dp', m'), rest)"
    | (digit) "isDigit c" and
        "readMantissa hex cs (sd, True, nd + 1, dp, m * (if hex then 16 else 10) + digitVal c) =
           ((sd', sg', nd', dp', m'), rest)"
    | (letter) "isHexLetter c" and
        "readMantissa hex cs (sd, True, nd + 1, dp, m * 16 + hexLetterVal c) =
           ((sd', sg', nd', dp', m'), rest)"
    by (simp split: if_splits)
  then show ?case
  proof cases
    case skip
    then show ?thesis using Cons.IH Cons.prems(2) by blast
  next
    case stop
    then show ?thesis using Cons.prems(2) by simp
  next
    case point
    then show ?thesis using Cons.IH Cons.prems(2) by blast
  next
    case zero
    then show ?thesis using Cons.IH Cons.prems(2) by blast
  next
    case digit
    then show ?thesis using Cons.IH d by blast
  next
    case letter
    then show ?thesis using Cons.IH h by blast
  qed
qed

lemma readFloat_sign:
  assumes "readFloat s = Some (neg, hex, mantissa, ex, rest)"
  shows "neg = HasPrefix s ''-'' \<and> 0 \<le> mantissa"
proof -
  from assms have ne: "s \<noteq> []"
    by (auto simp: readFloat_def)
  then have hp: "HasPrefix s ''-'' = (hd s = CHR ''-'')"
    by (cases s) (auto simp: HasPrefix_def)
  from assms ne have "neg = (hd s = CHR ''-'')"
    by (auto simp: readFloat_def Let_def split: prod.splits if_splits option.splits)
  moreover from assms ne have "0 \<le> mantissa"
    by (auto simp: readFloat_def Let_def split: prod.splits if_splits option.splits
             dest: readMantissa_nonneg)
  ultimately show ?thesis
    using hp by simp
qed

lemma special_sign:
  "special s = Some v \<Longrightarrow> v = NaN \<or> v = Infinity (HasPrefix s ''-'')"
  by (auto simp: special_def Let_def split: if_splits)

lemma ParseFloat_sign:
  assumes "ParseFloat s = Inr v"
  shows "v = NaN \<or> v = Infinity (HasPrefix s ''-'') \<or>
         (\<exists>m e. v = Num (HasPrefix s ''-'') m e \<and> 0 \<le> m)"
proof (cases "special s")
  case (Some w)
  with assms have "w = v"
    by (simp add: ParseFloat_def)
  with special_sign [OF Some] show ?thesis
    by auto
next
  case None
  with assms obtain neg hex mantissa ex where
    rf: "readFloat s = Some (neg, hex, mantissa, ex, [])"
    and rd: "roundToFloat64 neg (fst (powFrac (if hex then 2 else 10) mantissa ex))
               (snd (powFrac (if hex then 2 else 10) mantissa ex)) = Inr v"
    by (auto simp: ParseFloat_def Let_def split: option.splits if_splits)
  from readFloat_sign [OF rf] have n: "neg = HasPrefix s ''-''" and m: "0 \<le> mantissa"
    by simp_all
  have "0 \<le> fst (powFrac (if hex then 2 else 10) mantissa ex) \<and>
        0 < snd (powFrac (if hex then 2 else 10) mantissa ex)"
    using m by (intro powFrac_sign) auto
  with roundToFloat64_sign [OF _ _ rd] n show ?thesis
    by auto
qed

lemma emitted_credit:
  assumes "ParseFloat s = Inr v" and "HasPrefix s ''-''"
  shows "emittedAmount (FormatFloat (negate v))"
  using ParseFloat_sign [OF assms(1)] assms(2)
  by (auto simp: emittedAmount_def FormatFloat_canonical) (simp_all add: FormatFloat_def)

lemma emitted_debit:
  assumes "ParseFloat s = Inr v" and "\<not> HasPrefix s ''-''"
  shows "emittedAmount (FormatFloat v)"
  using ParseFloat_sign [OF assms(1)] assms(2)
  by (auto simp: emittedAmount_def FormatFloat_canonical) (simp_all add: FormatFloat_def)

lemma writerOK_appendRecord: "writerOK (appendRecord w r) = (writerOK w \<and> recordOK r)"
  by (auto simp: writerOK_def appendRecord_def records_def)

lemma writerOK_Flush: "writerOK (Flush w) = writerOK w"
  by (simp add: writerOK_def records_def Flush_def)

lemma writerOK_NewWriter: "writerOK NewWriter"
  by (simp add: writerOK_def records_def NewWriter_def)

lemma processRow_OK:
  assumes "writerOK (fst ws)" and "writerOK (snd ws)" and "processRow i row ws = Inr ws'"
  shows "writerOK (fst ws') \<and> writerOK (snd ws')"
proof (cases "skipRow i row")
  case True
  with assms show ?thesis
    by (simp add: processRow_skip)
next
  case False
  from processRow_emit [OF False, of ws] obtain amount where
    p: "ParseFloat (cleanedAmount row) = Inr amount" and
    r: "processRow i row ws =
          Inr (if HasPrefix (cleanedAmount row) ''-''
               then (appendRecord (fst ws) [row ! 0, row ! 24, FormatFloat (negate amount)], snd ws)
               else (fst ws, appendRecord (snd ws) [row ! 0, row ! 24, FormatFloat amount]))"
    by blast
  show ?thesis
  proof (cases "HasPrefix (cleanedAmount row) ''-''")
    case True
    with r assms(3)
    have "ws' = (appendRecord (fst ws) [row ! 0, row ! 24, FormatFloat (negate amount)], snd ws)"
      by simp
    with assms(1,2) emitted_credit [OF p True] show ?thesis
      by (simp add: writerOK_appendRecord recordOK_def)
  next
    case False
    with r assms(3)
    have "ws' = (fst ws, appendRecord (snd ws) [row ! 0, row ! 24, FormatFloat amount])"
      by simp
    with assms(1,2) emitted_debit [OF p False] show ?thesis
      by (simp add: writerOK_appendRecord recordOK_def)
  qed
qed

lemma processRows_OK:
  "writerOK (fst ws) \<Longrightarrow> writerOK (snd ws) \<Longrightarrow> processRows i rows ws = Inr ws' \<Longrightarrow>
   writerOK (fst ws') \<and> writerOK (snd ws')"
proof (induction rows arbitrary: i ws)
  case Nil
  then show ?case by simp
next
  case (Cons row rows)
  from Cons.prems(3) obtain ws1 where
    a: "processRow i row ws = Inr ws1" and b: "processRows (Suc i) rows ws1 = Inr ws'"
    by (auto split: sum.splits)
  from processRow_OK [OF Cons.prems(1,2) a] have "writerOK (fst ws1)" and "writerOK (snd ws1)"
    by simp_all
  then show ?case
    using b by (rule Cons.IH)
qed

lemma processSheet_writers:
  assumes "processSheet f name ws = Inr (f', ws')"
  shows "ws' = ws \<or>
         (\<exists>rows ws1. processRows 0 rows ws = Inr ws1 \<and> ws' = (Flush (fst ws1), Flush (snd ws1)))"
proof -
  from assms obtain rows where "GetRows f' name = Inr rows"
    by (auto simp: processSheet_def split: sum.splits if_splits)
  from processSheet_rows [OF assms this] show ?thesis
    by blast
qed

lemma processSheet_OK:
  assumes "writerOK (fst ws)" and "writerOK (snd ws)" and "processSheet f name ws = Inr (f', ws')"
  shows "writerOK (fst ws') \<and> writerOK (snd ws')"
  using processSheet_writers [OF assms(3)] assms(1,2)
  by (auto simp: writerOK_Flush dest: processRows_OK [rotated 2])

lemma sheetLoop_OK:
  "writerOK (fst ws) \<Longrightarrow> writerOK (snd ws) \<Longrightarrow> sheetLoop f names ws = Inr (f', ws') \<Longrightarrow>
   writerOK (fst ws') \<and> writerOK (snd ws')"
proof (induction names arbitrary: f ws)
  case Nil
  then show ?case by simp
next
  case (Cons name names)
  from Cons.prems(3) obtain f1 ws1 where
    a: "processSheet f name ws = Inr (f1, ws1)" and b: "sheetLoop f1 names ws1 = Inr (f', ws')"
    by (auto split: sum.splits)
  from processSheet_OK [OF Cons.prems(1,2) a] have "writerOK (fst ws1)" and "writerOK (snd ws1)"
    by simp_all
  then show ?case
    using b by (rule Cons.IH)
qed

text \<open>
  Claim C7, as amended.  Every record written by the transform, to either writer and
  from any sheet, has three fields, and its amount is a non-negative canonical decimal
  without thousands separators (digits, optionally a point and digits: no sign, no
  exponent, no separator, no leading zero before another digit of the integer part,
  no zero at the end of the fraction part), or else the text \<open>NaN\<close> or \<open>+Inf\<close>.
\<close>

theorem emitted_amounts:
  assumes "ledger fs filePath = Inr ws"
  shows "list_all recordOK (records (fst ws) @ records (snd ws))"
proof -
  from assms obtain f f' where step: "sheetLoop f (GetSheetList f) (NewWriter, NewWriter) = Inr (f', ws)"
    by (auto simp: ledger_def split: sum.splits)
  have "writerOK (fst (NewWriter, NewWriter))" and "writerOK (snd (NewWriter, NewWriter))"
    by (simp_all add: writerOK_NewWriter)
  from sheetLoop_OK [OF this step] show ?thesis
    by (simp add: writerOK_def)
qed

text \<open>Claim C7, witness: the raw amount \<open>-1,234.50\<close> is emitted as \<open>1234.5\<close>.\<close>

theorem emitted_amounts_witness:
  "ledger (book [(''Sheet1'', singleRecordSheet ''-1,234.50'')]) ''book.xlsx'' =
     Inr (\<lparr>buffered = [], flushed = [[''REF1'', ''MEMO1'', ''1234.5'']]\<rparr>, NewWriter) \<and>
   canonicalDecimal ''1234.5''"
proof -
  have a: "ledger (book [(''Sheet1'', singleRecordSheet ''-1,234.50'')]) ''book.xlsx'' =
     Inr (\<lparr>buffered = [], flushed = [[''REF1'', ''MEMO1'', ''1234.5'']]\<rparr>, NewWriter)"
    by code_simp
  from emitted_amounts [OF a] have "canonicalDecimal ''1234.5''"
    by (simp add: records_def recordOK_def emittedAmount_def)
  with a show ?thesis
    by blast
qed

text \<open>
  Claim C7, counterexample to the claim as stated: the parser accepts the spelling
  \<open>NaN\<close>, and the row is emitted as a debit record with the amount \<open>NaN\<close>, which is
  not a decimal.
\<close>

theorem nan_amount_emitted:
  "ledger (book [(''Sheet1'', singleRecordSheet ''NaN'')]) ''book.xlsx'' =
     Inr (NewWriter, \<lparr>buffered = [], flushed = [[''REF1'', ''MEMO1'', ''NaN'']]\<rparr>) \<and>
   CleanSpreadsheet (book [(''Sheet1'', singleRecordSheet ''NaN'')]) ''book.xlsx'' =
     Inr ([], ''REF1,MEMO1,NaN'' @ [CHR 0x0A]) \<and>
   \<not> canonicalDecimal ''NaN''"
  by code_simp

section \<open>The round trip of the emitted amounts\<close>

subsection \<open>Rounding to binary64 in terms of real numbers\<close>

text \<open>
  The fractions of the model stand for real numbers, and \<open>roundToFloat64\<close> depends
  on the fraction only through that number: the exponent it chooses is the one that
  \<open>expOK\<close> characterises, and the mantissa is the nearest integer of the scaled
  number.  A fraction within half a gap of a binary64 number is rounded to it.
\<close>

lemma floor_fracVal: "\<lfloor>fracVal q\<rfloor> = fst q div snd q"
  by (simp add: fracVal_def floor_divide_of_int_eq)

lemma frac_part_fracVal:
  assumes "0 < snd q"
  shows "fracVal q - of_int (fst q div snd q) = real_of_int (fst q mod snd q) / real_of_int (snd q)"
proof -
  have "fst q = snd q * (fst q div snd q) + fst q mod snd q"
    by simp
  then have "real_of_int (fst q) =
      real_of_int (snd q) * real_of_int (fst q div snd q) + real_of_int (fst q mod snd q)"
    by (metis of_int_add of_int_mult)
  with assms show ?thesis
    by (simp add: fracVal_def field_simps)
qed

lemma roundHalfEven_rne:
  assumes "0 < snd q"
  shows "roundHalfEven q = rne (fracVal q)"
proof -
  let ?r = "fst q mod snd q"
  have lt: "(2 * ?r < snd q) = (fracVal q - of_int \<lfloor>fracVal q\<rfloor> < 1 / 2)"
  proof -
    have "(real_of_int ?r / real_of_int (snd q) < 1 / 2) = (2 * real_of_int ?r < real_of_int (snd q))"
      using assms by (simp add: field_simps)
    also have "\<dots> = (2 * ?r < snd q)"
      by (metis of_int_less_iff of_int_mult of_int_numeral)
    finally show ?thesis
      by (simp add: floor_fracVal frac_part_fracVal [OF assms])
  qed
  have gt: "(snd q < 2 * ?r) = (1 / 2 < fracVal q - of_int \<lfloor>fracVal q\<rfloor>)"
  proof -
    have "(1 / 2 < real_of_int ?r / real_of_int (snd q)) = (real_of_int (snd q) < 2 * real_of_int ?r)"
      using assms by (simp add: field_simps)
    also have "\<dots> = (snd q < 2 * ?r)"
      by (metis of_int_less_iff of_int_mult of_int_numeral)
    finally show ?thesis
      by (simp add: floor_fracVal frac_part_fracVal [OF assms])
  qed
  show ?thesis
    unfolding roundHalfEven_def rne_def Let_def lt gt
    by (simp add: floor_fracVal)
qed

lemma fracVal_scaleBy2:
  assumes "0 < den"
  shows "fracVal (scaleBy2 num den e) = real_of_int num / real_of_int den / 2 powi e"
    and "0 < snd (scaleBy2 num den e)"
  using assms
  by (auto simp: fracVal_def scaleBy2_def power_int_def field_simps nat_minus_as_int)

lemma fracVal_powFrac:
  assumes "0 < b"
  shows "fracVal (powFrac b m ex) = real_of_int m * real_of_int b powi ex"
    and "0 < snd (powFrac b m ex)"
  using assms
  by (auto simp: fracVal_def powFrac_def power_int_def field_simps)

lemma fracVal_scaleBy10:
  assumes "0 < snd q"
  shows "fracVal (scaleBy10 q k) = fracVal q / 10 powi k"
    and "0 < snd (scaleBy10 q k)"
  using assms
  by (auto simp: fracVal_def scaleBy10_def power_int_def field_simps)

lemma bitLen_bounds: "0 < n \<Longrightarrow> 2 ^ (bitLen n - 1) \<le> n \<and> n < 2 ^ bitLen n"
proof (induction n rule: bitLen.induct)
  case (1 n)
  show ?case
  proof (cases "n = 1")
    case True
    have "bitLen 1 = 1"
      by (simp add: bitLen.simps)
    with True show ?thesis
      by simp
  next
    case False
    with "1.prems" have h: "0 < n div 2" and n0: "\<not> n \<le> 0"
      by simp_all
    from "1.IH" [OF n0 h] have ih: "2 ^ (bitLen (n div 2) - 1) \<le> n div 2" "n div 2 < 2 ^ bitLen (n div 2)"
      by simp_all
    have b: "bitLen n = Suc (bitLen (n div 2))"
      using n0 by (subst bitLen.simps) simp
    have pos: "0 < bitLen (n div 2)"
      using h by (subst bitLen.simps) simp
    then have b1: "bitLen n - 1 = Suc (bitLen (n div 2) - 1)"
      using b by simp
    have "(2::int) ^ (bitLen n - 1) = 2 * 2 ^ (bitLen (n div 2) - 1)"
      by (simp only: b1 power_Suc)
    also have "\<dots> \<le> 2 * (n div 2)"
      using ih(1) by simp
    also have "\<dots> \<le> n"
      by simp
    finally have lo: "2 ^ (bitLen n - 1) \<le> n" .
    have "n < 2 * (n div 2) + 2"
      by simp
    also have "\<dots> \<le> 2 * 2 ^ bitLen (n div 2)"
      using ih(2) by simp
    also have "\<dots> = 2 ^ bitLen n"
      by (simp only: b power_Suc)
    finally show ?thesis
      using lo by simp
  qed
qed

lemma roundToFloat64_chosenExp:
  "num \<noteq> 0 \<Longrightarrow>
   roundToFloat64 neg num den =
     (let e1 = chosenExp num den; m1 = roundHalfEven (scaleBy2 num den e1)
      in if m1 = 2 ^ 53
         then (if 971 < e1 + 1 then Inl ErrRange else Inr (Num neg (2 ^ 52) (e1 + 1)))
         else (if 971 < e1 then Inl ErrRange else Inr (Num neg m1 e1)))"
  by (simp add: roundToFloat64_def chosenExp_def Let_def)

lemma expOK_unique:
  assumes "0 < v" and "expOK v a" and "expOK v b"
  shows "a = b"
proof -
  have less: "\<not> c < d" if c: "expOK v c" and d: "expOK v d" for c d
  proof
    assume cd: "c < d"
    with c have "d \<noteq> - 1074"
      by (simp add: expOK_def)
    with d have lo: "2 ^ 52 \<le> v / 2 powi d"
      by (simp add: expOK_def)
    have "(2::real) powi (c + (d - c)) = 2 powi c * 2 powi (d - c)"
      by (rule power_int_add) simp
    then have "(2::real) powi d = 2 powi c * 2 powi (d - c)"
      by simp
    moreover have "(2::real) powi 1 \<le> 2 powi (d - c)"
      using cd by (intro power_int_increasing) simp_all
    ultimately have "2 * (2::real) powi c \<le> 2 powi d"
      by simp
    have pc: "0 < (2::real) powi c" and pd: "0 < (2::real) powi d"
      by simp_all
    from lo pd have "2 ^ 52 * 2 powi d \<le> v"
      by (simp add: field_simps)
    with \<open>2 * (2::real) powi c \<le> 2 powi d\<close> have "2 ^ 52 * (2 * 2 powi c) \<le> v"
      by (smt (verit) mult_left_mono zero_le_numeral zero_le_power)
    then have "2 ^ 53 \<le> v / 2 powi c"
      using pc by (simp add: field_simps)
    with c show False
      by (simp add: expOK_def)
  qed
  from less [OF assms(2,3)] less [OF assms(3,2)] show ?thesis
    by simp
qed

lemma ratio_bounds:
  assumes "0 < num" and "0 < den"
  shows "2 powi (int (bitLen num) - int (bitLen den) - 1) < real_of_int num / real_of_int den"
    and "real_of_int num / real_of_int den < 2 powi (int (bitLen num) - int (bitLen den) + 1)"
proof -
  let ?a = "bitLen num" and ?b = "bitLen den"
  from bitLen_bounds [OF assms(1)] have n: "2 ^ (?a - 1) \<le> num" "num < 2 ^ ?a"
    by simp_all
  from bitLen_bounds [OF assms(2)] have d: "2 ^ (?b - 1) \<le> den" "den < 2 ^ ?b"
    by simp_all
  have apos: "0 < ?a" using assms(1) by (subst bitLen.simps) simp
  have bpos: "0 < ?b" using assms(2) by (subst bitLen.simps) simp
  have rn1: "(2::real) powi (int ?a - 1) \<le> real_of_int num"
  proof -
    have "(2::real) powi (int ?a - 1) = 2 ^ (?a - 1)"
      using apos by (simp add: power_int_def nat_diff_distrib')
    also have "\<dots> = real_of_int (2 ^ (?a - 1))"
      by simp
    also have "\<dots> \<le> real_of_int num"
      using n(1) by (simp only: of_int_le_iff)
    finally show ?thesis .
  qed
  have rn2: "real_of_int num < 2 powi int ?a"
  proof -
    have "real_of_int num < real_of_int (2 ^ ?a)"
      using n(2) by (simp only: of_int_less_iff)
    then show ?thesis
      by simp
  qed
  have rd1: "(2::real) powi (int ?b - 1) \<le> real_of_int den"
  proof -
    have "(2::real) powi (int ?b - 1) = 2 ^ (?b - 1)"
      using bpos by (simp add: power_int_def nat_diff_distrib')
    also have "\<dots> = real_of_int (2 ^ (?b - 1))"
      by simp
    also have "\<dots> \<le> real_of_int den"
      using d(1) by (simp only: of_int_le_iff)
    finally show ?thesis .
  qed
  have rd2: "real_of_int den < 2 powi int ?b"
  proof -
    have "real_of_int den < real_of_int (2 ^ ?b)"
      using d(2) by (simp only: of_int_less_iff)
    then show ?thesis
      by simp
  qed
  have dpos: "0 < real_of_int den" using assms(2) by simp
  have npos: "0 < real_of_int num" using assms(1) by simp
  have "2 powi (int ?a - int ?b - 1) * real_of_int den < 2 powi (int ?a - int ?b - 1) * 2 powi int ?b"
    using rd2 by simp
  also have "\<dots> = 2 powi (int ?a - int ?b - 1 + int ?b)"
    by (rule power_int_add [symmetric]) simp
  also have "\<dots> = 2 powi (int ?a - 1)"
  proof -
    have "int ?a - int ?b - 1 + int ?b = int ?a - 1"
      by simp
    then show ?thesis
      by (simp only:)
  qed
  also have "\<dots> \<le> real_of_int num"
    by (rule rn1)
  finally show "2 powi (int ?a - int ?b - 1) < real_of_int num / real_of_int den"
    using dpos by (simp add: field_simps)
  have "real_of_int num < 2 powi int ?a"
    by (rule rn2)
  also have "\<dots> = 2 powi (int ?a - int ?b + 1 + (int ?b - 1))"
  proof -
    have "int ?a = int ?a - int ?b + 1 + (int ?b - 1)"
      by simp
    then show ?thesis
      by (simp only:)
  qed
  also have "\<dots> = 2 powi (int ?a - int ?b + 1) * 2 powi (int ?b - 1)"
    by (rule power_int_add) simp
  also have "\<dots> \<le> 2 powi (int ?a - int ?b + 1) * real_of_int den"
    using rd1 by simp
  finally show "real_of_int num / real_of_int den < 2 powi (int ?a - int ?b + 1)"
    using dpos by (simp add: field_simps)
qed

lemma div_lower: "0 < (p::real) \<Longrightarrow> p * c < v \<Longrightarrow> c < v / p"
  by (simp add: pos_less_divide_eq mult.commute)

lemma div_upper: "0 < (p::real) \<Longrightarrow> v < p * c \<Longrightarrow> v / p < c"
  by (simp add: pos_divide_less_eq mult.commute)

lemma chosenExp_floor:
  assumes "0 < den"
  shows "chosenExp num den =
     (let e0 = max (int (bitLen num) - int (bitLen den) - 53) (- 1074)
      in if 2 ^ 53 \<le> \<lfloor>real_of_int num / real_of_int den / 2 powi e0\<rfloor> then e0 + 1 else e0)"
proof -
  have "fst (scaleBy2 num den e) div snd (scaleBy2 num den e) =
        \<lfloor>real_of_int num / real_of_int den / 2 powi e\<rfloor>" for e
    using fracVal_scaleBy2(1) [OF assms, of num e] floor_fracVal [of "scaleBy2 num den e"]
    by simp
  then show ?thesis
    by (simp add: chosenExp_def Let_def)
qed

lemma chosenExp_OK:
  assumes "0 < num" and "0 < den"
  shows "expOK (real_of_int num / real_of_int den) (chosenExp num den)"
proof -
  define v where "v = real_of_int num / real_of_int den"
  define l where "l = int (bitLen num) - int (bitLen den)"
  define e0 where "e0 = max (l - 53) (- 1074)"
  define p :: real where "p = 2 powi e0"
  define w where "w = v / p"
  have rb: "2 powi (l - 1) < v" "v < 2 powi (l + 1)"
    using ratio_bounds [OF assms] by (simp_all add: v_def l_def)
  have p0: "0 < p"
    by (simp add: p_def)
  have ce: "chosenExp num den = (if 2 ^ 53 \<le> \<lfloor>w\<rfloor> then e0 + 1 else e0)"
    by (simp add: chosenExp_floor [OF assms(2)] Let_def w_def v_def l_def e0_def p_def)
  have "(2::real) powi (e0 + 1) = 2 powi e0 * 2 powi 1"
    by (rule power_int_add) simp
  then have half: "v / 2 powi (e0 + 1) = w / 2"
    by (simp add: w_def p_def)
  have same: "v / 2 powi e0 = w"
    by (simp add: w_def p_def)
  have ge: "- 1074 \<le> e0"
    by (simp add: e0_def)
  have goal: "expOK v (chosenExp num den)"
  proof (cases "- 1074 \<le> l - 53")
    case True
    then have e0: "e0 = l - 53"
      by (simp add: e0_def)
    have "l - 1 = e0 + 52"
      using e0 by arith
    then have "(2::real) powi (l - 1) = 2 powi (e0 + 52)"
      by (simp only:)
    also have "\<dots> = 2 powi e0 * 2 powi 52"
      by (rule power_int_add) simp
    finally have "p * 2 ^ 52 < v"
      using rb(1) by (simp add: p_def)
    then have lo: "2 ^ 52 < w"
      unfolding w_def by (rule div_lower [OF p0])
    have "l + 1 = e0 + 54"
      using e0 by arith
    then have "(2::real) powi (l + 1) = 2 powi (e0 + 54)"
      by (simp only:)
    also have "\<dots> = 2 powi e0 * 2 powi 54"
      by (rule power_int_add) simp
    finally have "v < p * 2 ^ 54"
      using rb(2) by (simp add: p_def)
    then have hi: "w < 2 ^ 54"
      unfolding w_def by (rule div_upper [OF p0])
    show ?thesis
    proof (cases "2 ^ 53 \<le> \<lfloor>w\<rfloor>")
      case big: True
      then have "2 ^ 53 \<le> w"
        by (simp add: le_floor_iff)
      with hi have "2 ^ 52 \<le> w / 2" and "w / 2 < 2 ^ 53"
        by simp_all
      then have "2 ^ 52 \<le> v / 2 powi (e0 + 1)" and "v / 2 powi (e0 + 1) < 2 ^ 53"
        by (simp_all only: half)
      moreover have "chosenExp num den = e0 + 1"
        using big ce by simp
      ultimately show ?thesis
        using ge by (simp add: expOK_def)
    next
      case small: False
      then have "w < 2 ^ 53"
        by (simp add: le_floor_iff not_le)
      with lo have "2 ^ 52 \<le> v / 2 powi e0" and "v / 2 powi e0 < 2 ^ 53"
        by (simp_all only: same)
      moreover have "chosenExp num den = e0"
        using small ce by simp
      ultimately show ?thesis
        using ge by (simp add: expOK_def)
    qed
  next
    case False
    then have e0: "e0 = - 1074" and l: "l + 1 + 1074 \<le> 53"
      by (simp_all add: e0_def)
    have "l + 1 = e0 + (l + 1 + 1074)"
      using e0 by arith
    then have "(2::real) powi (l + 1) = 2 powi (e0 + (l + 1 + 1074))"
      by (simp only:)
    also have "\<dots> = 2 powi e0 * 2 powi (l + 1 + 1074)"
      by (rule power_int_add) simp
    also have "\<dots> \<le> 2 powi e0 * 2 powi 53"
      using l by (intro mult_left_mono power_int_increasing) simp_all
    finally have "v < p * 2 ^ 53"
      using rb(2) by (simp add: p_def)
    then have hi: "w < 2 ^ 53"
      unfolding w_def by (rule div_upper [OF p0])
    then have "\<not> 2 ^ 53 \<le> \<lfloor>w\<rfloor>"
      by (simp add: le_floor_iff)
    with ce have "chosenExp num den = e0"
      by simp
    moreover have "v / 2 powi e0 < 2 ^ 53"
      using hi by (simp only: same)
    ultimately show ?thesis
      using e0 by (simp add: expOK_def)
  qed
  then show ?thesis
    by (simp add: v_def)
qed

lemma rne_cases:
  obtains (down) "rne w = \<lfloor>w\<rfloor>" and "w - of_int \<lfloor>w\<rfloor> \<le> 1 / 2"
        | (up) "rne w = \<lfloor>w\<rfloor> + 1" and "1 / 2 \<le> w - of_int \<lfloor>w\<rfloor>"
  by (cases "w - of_int \<lfloor>w\<rfloor> < 1 / 2"; cases "1 / 2 < w - of_int \<lfloor>w\<rfloor>"; cases "even \<lfloor>w\<rfloor>")
     (auto simp: rne_def)

lemma rne_close: "\<bar>of_int (rne w) - w\<bar> \<le> 1 / 2"
proof (cases w rule: rne_cases)
  case down
  have "of_int \<lfloor>w\<rfloor> \<le> w"
    by simp
  with down show ?thesis
    by simp
next
  case up
  have "w < of_int \<lfloor>w\<rfloor> + 1"
    by linarith
  with up show ?thesis
    by simp
qed

lemma rne_near:
  assumes "\<bar>w - of_int m\<bar> < 1 / 2"
  shows "rne w = m"
proof -
  from rne_close [of w] assms have "\<bar>real_of_int (rne w) - real_of_int m\<bar> < 1"
    by linarith
  then have "\<bar>real_of_int (rne w - m)\<bar> < 1"
    by simp
  then have "\<bar>rne w - m\<bar> < 1"
    by (metis of_int_abs of_int_less_1_iff)
  then show ?thesis
    by simp
qed

lemma rne_lower: "of_int z \<le> w \<Longrightarrow> z \<le> rne w"
proof -
  assume "of_int z \<le> w"
  then have "z \<le> \<lfloor>w\<rfloor>"
    by (simp add: le_floor_iff)
  then show ?thesis
    by (cases w rule: rne_cases) simp_all
qed

lemma rne_upper: "w \<le> of_int z \<Longrightarrow> rne w \<le> z"
proof (cases "w = of_int z")
  case True
  then have "rne w = z"
    by (intro rne_near) simp
  then show ?thesis
    by simp
next
  case False
  assume "w \<le> of_int z"
  with False have "w < of_int z"
    by simp
  then have "\<lfloor>w\<rfloor> < z"
    by (simp add: floor_less_iff)
  then show ?thesis
    by (cases w rule: rne_cases) simp_all
qed

lemma chosenExp_unique:
  assumes "0 < num" and "0 < den" and "expOK (real_of_int num / real_of_int den) a"
  shows "chosenExp num den = a"
proof -
  have "0 < real_of_int num / real_of_int den"
    using assms(1,2) by simp
  from expOK_unique [OF this chosenExp_OK [OF assms(1,2)] assms(3)] show ?thesis .
qed

lemma roundToFloat64_real:
  assumes "0 < num" and "0 < den" and "expOK (real_of_int num / real_of_int den) a"
  shows "roundToFloat64 neg num den =
     (if rne (real_of_int num / real_of_int den / 2 powi a) = 2 ^ 53
      then (if 971 < a + 1 then Inl ErrRange else Inr (Num neg (2 ^ 52) (a + 1)))
      else (if 971 < a then Inl ErrRange
            else Inr (Num neg (rne (real_of_int num / real_of_int den / 2 powi a)) a)))"
proof -
  have ce: "chosenExp num den = a"
    using assms by (rule chosenExp_unique)
  have r: "roundHalfEven (scaleBy2 num den a) = rne (real_of_int num / real_of_int den / 2 powi a)"
    using roundHalfEven_rne [OF fracVal_scaleBy2(2) [OF assms(2), of num a]]
          fracVal_scaleBy2(1) [OF assms(2), of num a]
    by simp
  from assms(1) have "num \<noteq> 0"
    by simp
  from roundToFloat64_chosenExp [OF this, of neg den] show ?thesis
    by (simp only: Let_def ce r)
qed

lemma roundToFloat64_value:
  assumes "0 < num" and "0 < den" and "0 < num'" and "0 < den'"
    and "real_of_int num / real_of_int den = real_of_int num' / real_of_int den'"
  shows "roundToFloat64 neg num den = roundToFloat64 neg num' den'"
proof -
  let ?a = "chosenExp num den"
  have a: "expOK (real_of_int num / real_of_int den) ?a"
    using assms(1,2) by (rule chosenExp_OK)
  then have b: "expOK (real_of_int num' / real_of_int den') ?a"
    by (simp only: assms(5))
  show ?thesis
    by (simp only: roundToFloat64_real [OF assms(1,2) a] roundToFloat64_real [OF assms(3,4) b] assms(5))
qed

lemma roundToFloat64_valid:
  assumes "0 < num" and "0 < den" and "roundToFloat64 neg num den = Inr (Num neg' m e)"
  shows "neg' = neg \<and> (validNum m e \<or> (m = 0 \<and> e = - 1074))"
proof -
  define a where "a = chosenExp num den"
  define w where "w = real_of_int num / real_of_int den / 2 powi a"
  have ok: "expOK (real_of_int num / real_of_int den) a"
    unfolding a_def using assms(1,2) by (rule chosenExp_OK)
  then have a1: "- 1074 \<le> a" and w1: "w < 2 ^ 53" and w2: "2 ^ 52 \<le> w \<or> a = - 1074"
    by (simp_all add: expOK_def w_def)
  have w0: "0 \<le> w"
    using assms(1,2) by (simp add: w_def)
  have r0: "0 \<le> rne w"
    using w0 by (intro rne_lower) simp
  have r1: "rne w \<le> 2 ^ 53"
    using w1 by (intro rne_upper) simp
  have r2: "2 ^ 52 \<le> w \<Longrightarrow> 2 ^ 52 \<le> rne w"
    by (intro rne_lower) simp
  note eq = roundToFloat64_real [OF assms(1,2) ok, of neg, folded w_def]
  show ?thesis
  proof (cases "rne w = 2 ^ 53")
    case True
    with eq assms(3) a1 show ?thesis
      by (auto simp: validNum_def split: if_splits)
  next
    case False
    with eq assms(3) have res: "neg' = neg" "m = rne w" "e = a" "a \<le> 971"
      by (auto split: if_splits)
    from False r1 have lt: "rne w < 2 ^ 53"
      by simp
    show ?thesis
    proof (cases "2 ^ 52 \<le> w")
      case True
      from r2 [OF this] lt res a1 show ?thesis
        by (simp add: validNum_def)
    next
      case False
      with w2 have "a = - 1074"
        by simp
      with lt r0 res show ?thesis
        by (auto simp: validNum_def)
    qed
  qed
qed

lemma round_within:
  assumes v: "validNum m e" and n: "0 < num" and d: "0 < den"
    and near: "\<bar>real_of_int num / real_of_int den / 2 powi e - of_int m\<bar> < 1 / 2"
    and edge: "m = 2 ^ 52 \<Longrightarrow> e \<noteq> - 1074 \<Longrightarrow>
               2 ^ 52 - 1 / 4 < real_of_int num / real_of_int den / 2 powi e"
  shows "roundToFloat64 False num den = Inr (Num False m e)"
proof -
  define x where "x = real_of_int num / real_of_int den"
  define w where "w = x / 2 powi e"
  from near have near': "\<bar>w - of_int m\<bar> < 1 / 2"
    by (simp add: w_def x_def)
  from v have m1: "0 < m" and m2: "m < 2 ^ 53" and e1: "- 1074 \<le> e" and e2: "e \<le> 971"
    and m3: "2 ^ 52 \<le> m \<or> e = - 1074"
    by (simp_all add: validNum_def)
  from m2 have "m \<le> 2 ^ 53 - 1"
    by simp
  then have "real_of_int m \<le> real_of_int (2 ^ 53 - 1)"
    by (simp only: of_int_le_iff)
  then have m2r: "real_of_int m \<le> 2 ^ 53 - 1"
    by simp
  show ?thesis
  proof (cases "2 ^ 52 \<le> w \<or> e = - 1074")
    case True
    from near' m2r have "w < 2 ^ 53"
      by linarith
    with True e1 have ok: "expOK (real_of_int num / real_of_int den) e"
      by (simp add: expOK_def w_def x_def)
    have r: "rne w = m"
      using near' by (rule rne_near)
    from m2 have ne: "m \<noteq> 2 ^ 53"
      by simp
    from roundToFloat64_real [OF n d ok, of False, folded x_def, folded w_def] r ne e2
    show ?thesis
      by simp
  next
    case False
    then have wl: "w < 2 ^ 52" and en: "e \<noteq> - 1074"
      by simp_all
    with m3 have mge: "2 ^ 52 \<le> m"
      by simp
    have meq: "m = 2 ^ 52"
    proof (rule ccontr)
      assume "m \<noteq> 2 ^ 52"
      with mge have "2 ^ 52 + 1 \<le> m"
        by simp
      then have "real_of_int (2 ^ 52 + 1) \<le> real_of_int m"
        by (simp only: of_int_le_iff)
      then have "2 ^ 52 + 1 \<le> real_of_int m"
        by simp
      with near' wl show False
        by linarith
    qed
    from edge [OF meq en] have lo: "2 ^ 52 - 1 / 4 < w"
      by (simp add: w_def x_def)
    have "(2::real) powi (e - 1 + 1) = 2 powi (e - 1) * 2 powi 1"
      by (rule power_int_add) simp
    then have pe: "(2::real) powi e = 2 powi (e - 1) * 2"
      by simp
    have pp: "0 < (2::real) powi (e - 1)"
      by simp
    have dbl: "x / 2 powi (e - 1) = 2 * w"
      unfolding w_def pe using pp by (simp add: field_simps)
    have "- 1074 \<le> e - 1" and "2 * w < 2 ^ 53" and "2 ^ 52 \<le> 2 * w"
      using e1 en wl lo by simp_all
    then have "expOK x (e - 1)"
      unfolding expOK_def by (simp only: dbl simp_thms)
    then have ok: "expOK (real_of_int num / real_of_int den) (e - 1)"
      by (simp only: x_def)
    have "\<bar>2 * w - of_int (2 ^ 53)\<bar> < 1 / 2"
      using wl lo by simp
    then have r: "rne (2 * w) = 2 ^ 53"
      by (rule rne_near)
    from roundToFloat64_real [OF n d ok, of False, folded x_def] r e2 meq
    show ?thesis
      by (simp add: dbl)
  qed
qed

lemma roundHalfEven_cases:
  "roundHalfEven q = fst q div snd q \<or> roundHalfEven q = fst q div snd q + 1"
  by (simp add: roundHalfEven_def Let_def)

lemma decimalExponent_real:
  assumes "0 < fst x" and "0 < snd x"
  shows "10 powi decimalExponent x \<le> fracVal x"
proof -
  let ?p = "decimalExponent x"
  have f: "0 < real_of_int (fst x)" and s: "0 < real_of_int (snd x)"
    using assms by simp_all
  note low = decimalExponent_lower [OF assms]
  show ?thesis
  proof (cases "0 \<le> ?p")
    case True
    with low have "snd x * 10 ^ nat ?p \<le> fst x"
      by simp
    then have "real_of_int (snd x * 10 ^ nat ?p) \<le> real_of_int (fst x)"
      by (simp only: of_int_le_iff)
    then have "real_of_int (snd x) * 10 ^ nat ?p \<le> real_of_int (fst x)"
      by simp
    then have "10 ^ nat ?p \<le> real_of_int (fst x) / real_of_int (snd x)"
      using s by (simp add: pos_le_divide_eq mult.commute)
    with True show ?thesis
      by (simp add: fracVal_def power_int_def)
  next
    case False
    with low have "snd x \<le> fst x * 10 ^ nat (- ?p)"
      by simp
    then have "real_of_int (snd x) \<le> real_of_int (fst x * 10 ^ nat (- ?p))"
      by (simp only: of_int_le_iff)
    then have "real_of_int (snd x) \<le> real_of_int (fst x) * 10 ^ nat (- ?p)"
      by simp
    then have "1 / 10 ^ nat (- ?p) \<le> real_of_int (fst x) / real_of_int (snd x)"
      using s by (simp add: field_simps)
    with False show ?thesis
      by (simp add: fracVal_def power_int_def field_simps)
  qed
qed

subsection \<open>The shortest digits parse back\<close>

text \<open>
  The nearest decimal of 17 digits is within half a gap of the number, because
  \<open>2^53 < 10^16\<close>; with fewer digits \<open>shortestFrom\<close> keeps a decimal only when it
  parses back.
\<close>

lemma validNum_real:
  assumes "validNum m e"
  shows "0 < real_of_int m" and "real_of_int m < 10 ^ 16"
proof -
  from assms have "0 < m" and "m < 10 ^ 16"
    by (simp_all add: validNum_def)
  then have "real_of_int 0 < real_of_int m" and "real_of_int m < real_of_int (10 ^ 16)"
    by (simp_all only: of_int_less_iff)
  then show "0 < real_of_int m" and "real_of_int m < 10 ^ 16"
    by simp_all
qed

lemma nearest17:
  assumes v: "validNum m e" and n: "17 \<le> n"
  shows "roundTrips m e (roundHalfEven (scaleBy10 (powFrac 2 m e) (decimalExponent (powFrac 2 m e) - int n + 1)))
           (decimalExponent (powFrac 2 m e) - int n + 1)"
proof -
  define x where "x = powFrac 2 m e"
  define p where "p = decimalExponent x"
  define k where "k = p - int n + 1"
  define s where "s = scaleBy10 x k"
  define c where "c = roundHalfEven s"
  define X where "X = real_of_int m * 2 powi e"
  define t :: real where "t = 10 powi k"
  define b :: real where "b = 2 powi e"
  from v have m0: "0 < m"
    by (simp add: validNum_def)
  note mr = validNum_real [OF v]
  have xs: "0 < fst x" "0 < snd x"
    using m0 by (simp_all add: x_def powFrac_def)
  have b0: "0 < b" and t0: "0 < t"
    by (simp_all add: b_def t_def)
  have Xv: "fracVal x = X"
    using fracVal_powFrac(1) [of 2 m e] by (simp add: x_def X_def)
  have Xb: "X = real_of_int m * b"
    by (simp add: X_def b_def)
  have X0: "0 < X"
    unfolding Xb using mr(1) b0 by simp
  have pl: "10 powi p \<le> X"
    using decimalExponent_real [OF xs] by (simp add: p_def Xv)
  have ss: "0 < snd s"
    unfolding s_def using xs(2) by (rule fracVal_scaleBy10(2))
  have sv: "fracVal s = X / t"
    using fracVal_scaleBy10(1) [OF xs(2), of k] by (simp add: s_def Xv t_def)
  have cr: "c = rne (X / t)"
    using roundHalfEven_rne [OF ss] by (simp add: c_def sv)
  have kp: "k + 16 \<le> p"
    using n by (simp add: k_def)
  have "(10::real) powi (k + 16) = 10 powi k * 10 powi 16"
    by (rule power_int_add) simp
  moreover have "(10::real) powi (k + 16) \<le> 10 powi p"
    using kp by (intro power_int_increasing) simp_all
  ultimately have tX: "t * 10 ^ 16 \<le> X"
    using pl by (simp add: t_def)
  have "1 * t \<le> t * 10 ^ 16"
    using t0 by simp
  with tX have "t \<le> X"
    by simp
  then have "1 \<le> X / t"
    using t0 by (simp add: pos_le_divide_eq)
  then have "1 \<le> rne (X / t)"
    by (intro rne_lower) simp
  then have c0: "0 < c"
    by (simp add: cr)
  define q where "q = powFrac 10 c k"
  have qs: "0 < fst q" "0 < snd q"
    using c0 by (simp_all add: q_def powFrac_def)
  have qv: "real_of_int (fst q) / real_of_int (snd q) = real_of_int c * t"
    using fracVal_powFrac(1) [of 10 c k] by (simp add: q_def fracVal_def t_def)
  have close: "\<bar>real_of_int c - X / t\<bar> \<le> 1 / 2"
    unfolding cr by (rule rne_close)
  have "\<bar>real_of_int c * t - X\<bar> = \<bar>real_of_int c - X / t\<bar> * t"
  proof -
    have "real_of_int c * t - X = (real_of_int c - X / t) * t"
      using t0 by (simp add: field_simps)
    then show ?thesis
      using t0 by (simp add: abs_mult)
  qed
  also have "\<dots> \<le> 1 / 2 * t"
    using close t0 by (intro mult_right_mono) simp_all
  finally have dX: "\<bar>real_of_int c * t - X\<bar> \<le> t / 2"
    by simp
  have tm: "t \<le> real_of_int m * b / 10 ^ 16"
    using tX by (simp add: Xb field_simps)
  have dev: "\<bar>real_of_int c * t / b - real_of_int m\<bar> \<le> real_of_int m / (2 * 10 ^ 16)"
  proof -
    have "real_of_int c * t / b - real_of_int m = (real_of_int c * t - X) / b"
      using b0 by (simp add: Xb field_simps)
    then have "\<bar>real_of_int c * t / b - real_of_int m\<bar> = \<bar>real_of_int c * t - X\<bar> / b"
      using b0 by (simp add: abs_divide)
    also have "\<dots> \<le> (t / 2) / b"
      using dX b0 by (intro divide_right_mono) simp_all
    also have "\<dots> \<le> (real_of_int m * b / 10 ^ 16 / 2) / b"
      using tm b0 by (intro divide_right_mono) simp_all
    also have "\<dots> = real_of_int m / (2 * 10 ^ 16)"
      using b0 by simp
    finally show ?thesis .
  qed
  have near: "\<bar>real_of_int (fst q) / real_of_int (snd q) / 2 powi e - of_int m\<bar> < 1 / 2"
  proof -
    have "real_of_int m / (2 * 10 ^ 16) < 1 / 2"
      using mr(2) by simp
    with dev show ?thesis
      by (simp add: qv b_def)
  qed
  have edge: "2 ^ 52 - 1 / 4 < real_of_int (fst q) / real_of_int (snd q) / 2 powi e" if "m = 2 ^ 52"
  proof -
    from that have "real_of_int m = 2 ^ 52"
      by simp
    define y where "y = real_of_int c * t / b"
    from dev have "\<bar>y - real_of_int m\<bar> \<le> real_of_int m / (2 * 10 ^ 16)"
      by (simp only: y_def)
    then have "\<bar>y - 2 ^ 52\<bar> \<le> 2 ^ 52 / (2 * 10 ^ 16)"
      by (simp only: \<open>real_of_int m = 2 ^ 52\<close>)
    moreover have "(2::real) ^ 52 / (2 * 10 ^ 16) < 1 / 4"
      by simp
    ultimately have "2 ^ 52 - 1 / 4 < y"
      by linarith
    then show ?thesis
      by (simp only: qv b_def y_def)
  qed
  have "roundToFloat64 False (fst q) (snd q) = Inr (Num False m e)"
    using v qs near edge by (rule round_within)
  then show ?thesis
    by (simp add: roundTrips_def Let_def q_def c_def s_def k_def p_def x_def)
qed

lemma shortestFrom_roundTrips:
  "validNum m e \<Longrightarrow> shortestFrom n m e = (c, k) \<Longrightarrow> roundTrips m e c k"
proof (induction n m e rule: shortestFrom.induct)
  case (1 n m e)
  let ?x = "powFrac 2 m e"
  let ?k = "decimalExponent ?x - int n + 1"
  let ?s = "scaleBy10 ?x ?k"
  let ?lo = "fst ?s div snd ?s"
  show ?case
  proof (cases "17 \<le> n")
    case True
    with "1.prems"(2) have "c = roundHalfEven ?s" and "k = ?k"
      by (subst (asm) shortestFrom.simps, simp add: Let_def)+
    with nearest17 [OF "1.prems"(1) True] show ?thesis
      by simp
  next
    case n: False
    show ?thesis
    proof (cases "roundTrips m e ?lo ?k")
      case down: True
      show ?thesis
      proof (cases "roundTrips m e (?lo + 1) ?k")
        case up: True
        from "1.prems"(2) n down up have "c = roundHalfEven ?s" and "k = ?k"
          by (subst (asm) shortestFrom.simps, simp add: Let_def)+
        with roundHalfEven_cases [of ?s] down up show ?thesis
          by auto
      next
        case up: False
        from "1.prems"(2) n down up have "c = ?lo" and "k = ?k"
          by (subst (asm) shortestFrom.simps, simp add: Let_def)+
        with down show ?thesis
          by simp
      qed
    next
      case down: False
      show ?thesis
      proof (cases "roundTrips m e (?lo + 1) ?k")
        case up: True
        from "1.prems"(2) n down up have "c = ?lo + 1" and "k = ?k"
          by (subst (asm) shortestFrom.simps, simp add: Let_def)+
        with up show ?thesis
          by simp
      next
        case up: False
        from "1.prems"(2) n down up have "shortestFrom (Suc n) m e = (c, k)"
          by (subst (asm) shortestFrom.simps) (simp add: Let_def)
        with "1.IH" [OF refl refl refl refl refl refl _ _ _ "1.prems"(1)] n down up show ?thesis
          by simp
      qed
    qed
  qed
qed

subsection \<open>Reading the rendered digits\<close>

text \<open>
  The reader, run on the three layouts of \<open>fmtF\<close> (digits padded with zeros,
  digits around a point, and \<open>0.\<close> followed by zeros and the digits), finds the
  mantissa and the decimal exponent of the digits.
\<close>

lemma isDigit_plain:
  assumes "isDigit c"
  shows "c \<noteq> CHR ''_''" and "c \<noteq> CHR ''.''" and "c \<noteq> CHR ''+''" and "c \<noteq> CHR ''-''"
    and "toLower c = c" and "c \<noteq> CHR ''x''" and "c \<noteq> CHR ''i''" and "c \<noteq> CHR ''n''"
    and "c \<noteq> CHR ''b''" and "c \<noteq> CHR ''o''" and "c \<noteq> CHR ''e''"
  using assms by (auto simp: isDigit_def toLower_def)

lemma foldl_digits:
  "foldl (\<lambda>a c. a * 10 + digitVal c) a ds = a * 10 ^ length ds + digitsVal ds"
proof (induction ds arbitrary: a rule: rev_induct)
  case Nil
  show ?case by (simp add: digitsVal_def)
next
  case (snoc c ds)
  have "foldl (\<lambda>a c. a * 10 + digitVal c) a (ds @ [c]) =
        foldl (\<lambda>a c. a * 10 + digitVal c) a ds * 10 + digitVal c"
    by simp
  also have "\<dots> = (a * 10 ^ length ds + digitsVal ds) * 10 + digitVal c"
    by (simp only: snoc.IH)
  also have "digitsVal (ds @ [c]) = digitsVal ds * 10 + digitVal c"
    by (simp add: digitsVal_def)
  ultimately show ?case
    by (simp add: algebra_simps)
qed

lemma digitsVal_append:
  "digitsVal (xs @ ys) = digitsVal xs * 10 ^ length ys + digitsVal ys"
proof -
  have "digitsVal (xs @ ys) = foldl (\<lambda>a c. a * 10 + digitVal c) (digitsVal xs) ys"
    by (simp add: digitsVal_def)
  then show ?thesis
    by (simp only: foldl_digits)
qed

lemma digitsVal_zeros: "digitsVal (replicate z (CHR ''0'')) = 0"
  by (induction z) (simp_all add: digitsVal_def digitVal_def)

lemma digitsVal_nonneg: "list_all isDigit ds \<Longrightarrow> 0 \<le> digitsVal ds"
proof (induction ds rule: rev_induct)
  case Nil
  show ?case by (simp add: digitsVal_def)
next
  case (snoc c ds)
  then have "0 \<le> digitsVal ds" and "0 \<le> digitVal c"
    by (simp_all add: digitVal_nonneg)
  then show ?case
    by (simp add: digitsVal_append [of ds "[c]"] digitsVal_def)
qed

lemma digitsVal_pos:
  assumes "ds \<noteq> []" and "list_all isDigit ds" and "nonzeroDigit (hd ds)"
  shows "0 < digitsVal ds"
proof -
  from assms(1) obtain c cs where ds: "ds = [c] @ cs"
    by (cases ds) simp_all
  with assms have c: "nonzeroDigit c" and cs: "list_all isDigit cs"
    by simp_all
  from c have "0 < digitVal c"
    by (simp add: nonzeroDigit_def digitVal_def)
  then have "0 < digitsVal [c]"
    by (simp add: digitsVal_def)
  then have "0 < digitsVal [c] * 10 ^ length cs"
    by simp
  with digitsVal_nonneg [OF cs] show ?thesis
    unfolding ds digitsVal_append by linarith
qed

lemma digitVal_digitChar: "0 \<le> d \<Longrightarrow> d < 10 \<Longrightarrow> digitVal (digitChar d) = d"
  by (simp add: digitVal_def digitChar_def)

lemma digitsVal_digitsOfNat: "0 \<le> n \<Longrightarrow> digitsVal (digitsOfNat n) = n"
proof (induction n rule: digitsOfNat.induct)
  case (1 n)
  show ?case
  proof (cases "n < 10")
    case True
    with "1.prems" show ?thesis
      by (subst digitsOfNat.simps) (simp add: digitsVal_def digitVal_digitChar)
  next
    case False
    with "1.prems" have ih: "digitsVal (digitsOfNat (n div 10)) = n div 10"
      by (intro "1.IH") auto
    have "digitVal (digitChar (n mod 10)) = n mod 10"
      by (rule digitVal_digitChar) auto
    then have "digitsVal [digitChar (n mod 10)] = n mod 10"
      by (simp add: digitsVal_def)
    with ih have "digitsVal (digitsOfNat (n div 10) @ [digitChar (n mod 10)]) = n div 10 * 10 + n mod 10"
      by (simp add: digitsVal_append)
    with False show ?thesis
      by (subst digitsOfNat.simps) simp
  qed
qed

lemma rm_digits:
  "list_all isDigit ds \<Longrightarrow> 0 < nd \<or> ds = [] \<or> hd ds \<noteq> CHR ''0'' \<Longrightarrow>
   readMantissa False (ds @ rest) (sd, sg, nd, dp, mant) =
   readMantissa False rest (sd, sg \<or> ds \<noteq> [], nd + length ds, dp,
                            mant * 10 ^ length ds + digitsVal ds)"
proof (induction ds arbitrary: sg nd mant)
  case Nil
  show ?case by (simp add: digitsVal_def)
next
  case (Cons c cs)
  from Cons.prems(1) have c: "isDigit c" and cs: "list_all isDigit cs"
    by simp_all
  from Cons.prems(2) have nz: "(c = CHR ''0'' \<and> nd = 0) = False"
    by auto
  have "readMantissa False ((c # cs) @ rest) (sd, sg, nd, dp, mant) =
        readMantissa False (cs @ rest) (sd, True, nd + 1, dp, mant * 10 + digitVal c)"
    using c isDigit_plain(1,2) [OF c] by (simp add: nz)
  also have "\<dots> = readMantissa False rest (sd, True \<or> cs \<noteq> [], nd + 1 + length cs, dp,
                            (mant * 10 + digitVal c) * 10 ^ length cs + digitsVal cs)"
    using cs by (rule Cons.IH) simp
  also have "digitsVal (c # cs) = digitVal c * 10 ^ length cs + digitsVal cs"
    using digitsVal_append [of "[c]" cs] by (simp add: digitsVal_def)
  ultimately show ?case
    by (simp add: algebra_simps)
qed

lemma rm_zeros:
  "readMantissa False (replicate z (CHR ''0'') @ rest) (sd, sg, 0, dp, mant) =
   readMantissa False rest (sd, sg \<or> 0 < z, 0, dp - int z, mant)"
proof (induction z arbitrary: sg dp)
  case 0
  show ?case by simp
next
  case (Suc z)
  have "readMantissa False (replicate (Suc z) (CHR ''0'') @ rest) (sd, sg, 0, dp, mant) =
        readMantissa False (replicate z (CHR ''0'') @ rest) (sd, True, 0, dp - 1, mant)"
    by (simp add: isDigit_zero)
  also have "\<dots> = readMantissa False rest (sd, True \<or> 0 < z, 0, dp - 1 - int z, mant)"
    by (rule Suc.IH)
  also have "dp - 1 - int z = dp - int (Suc z)"
    by simp
  finally show ?case
    by (simp only: simp_thms zero_less_Suc)
qed

lemma rm_point:
  "readMantissa False (CHR ''.'' # rest) (False, sg, nd, dp, mant) =
   readMantissa False rest (True, sg, nd, int nd, mant)"
  by simp

lemma fracDigits:
  assumes "dp \<le> int (length ds)"
  shows "map (fracDigit ds dp) [0..<nat (int (length ds) - dp)] =
         (if 0 \<le> dp then drop (nat dp) ds else replicate (nat (- dp)) (CHR ''0'') @ ds)"
proof (cases "0 \<le> dp")
  case True
  have "map (fracDigit ds dp) [0..<nat (int (length ds) - dp)] = drop (nat dp) ds"
  proof (rule nth_equalityI)
    show "length (map (fracDigit ds dp) [0..<nat (int (length ds) - dp)]) = length (drop (nat dp) ds)"
      using True assms by simp
  next
    fix i
    assume "i < length (map (fracDigit ds dp) [0..<nat (int (length ds) - dp)])"
    then have i: "i < nat (int (length ds) - dp)"
      by simp
    with True have j: "0 \<le> dp + int i" "dp + int i < int (length ds)" "nat (dp + int i) = nat dp + i"
      by simp_all
    from i have "map (fracDigit ds dp) [0..<nat (int (length ds) - dp)] ! i = fracDigit ds dp i"
      by simp
    also have "\<dots> = ds ! (nat dp + i)"
      using j by (simp add: fracDigit_def Let_def)
    also have "\<dots> = drop (nat dp) ds ! i"
      using j True by simp
    finally show "map (fracDigit ds dp) [0..<nat (int (length ds) - dp)] ! i = drop (nat dp) ds ! i" .
  qed
  with True show ?thesis
    by simp
next
  case False
  let ?z = "nat (- dp)"
  have "map (fracDigit ds dp) [0..<nat (int (length ds) - dp)] = replicate ?z (CHR ''0'') @ ds"
  proof (rule nth_equalityI)
    show "length (map (fracDigit ds dp) [0..<nat (int (length ds) - dp)]) =
          length (replicate ?z (CHR ''0'') @ ds)"
      using False by simp
  next
    fix i
    assume "i < length (map (fracDigit ds dp) [0..<nat (int (length ds) - dp)])"
    then have i: "i < nat (int (length ds) - dp)"
      by simp
    then have m: "map (fracDigit ds dp) [0..<nat (int (length ds) - dp)] ! i = fracDigit ds dp i"
      by simp
    show "map (fracDigit ds dp) [0..<nat (int (length ds) - dp)] ! i =
          (replicate ?z (CHR ''0'') @ ds) ! i"
    proof (cases "i < ?z")
      case True
      then have "dp + int i < 0"
        by simp
      then have "fracDigit ds dp i = CHR ''0''"
        by (simp add: fracDigit_def Let_def)
      with True m show ?thesis
        by (simp add: nth_append)
    next
      case ge: False
      with False i have j: "0 \<le> dp + int i" "dp + int i < int (length ds)"
        "nat (dp + int i) = i - ?z"
        by simp_all
      then have "fracDigit ds dp i = ds ! (i - ?z)"
        by (simp add: fracDigit_def Let_def)
      with ge m show ?thesis
        by (simp add: nth_append)
    qed
  qed
  with False show ?thesis
    by simp
qed

lemma plain_toLower:
  assumes "isDigit c \<or> c = CHR ''.''"
  shows "toLower c \<noteq> CHR ''x''" and "toLower c \<noteq> CHR ''b''" and "toLower c \<noteq> CHR ''o''"
  using assms by (auto simp: isDigit_def toLower_def)

lemma point_not_hex: "\<not> isHexLetter (CHR ''.'')"
  by (simp add: isHexLetter_def)

lemma underscoreLoop_plain:
  "\<forall>c \<in> set s. isDigit c \<or> c = CHR ''.'' \<Longrightarrow> saw \<noteq> CHR ''_'' \<Longrightarrow> underscoreLoop hex saw s"
proof (induction s arbitrary: saw)
  case Nil
  then show ?case by simp
next
  case (Cons c cs)
  from Cons.prems(1) have rest: "\<forall>c \<in> set cs. isDigit c \<or> c = CHR ''.''"
    by simp
  have a: "underscoreLoop hex (CHR ''0'') cs" and b: "underscoreLoop hex (CHR ''!'') cs"
    using rest by (rule Cons.IH, simp)+
  from Cons.prems(1) have "isDigit c \<or> c = CHR ''.''"
    by simp
  then show ?case
  proof
    assume "isDigit c"
    with a show ?thesis
      by simp
  next
    assume "c = CHR ''.''"
    with a b Cons.prems(2) show ?thesis
      by (simp add: point_not_digit point_not_hex)
  qed
qed

lemma HasPrefix_digit:
  assumes "s \<noteq> []" and "isDigit (hd s)"
  shows "\<not> HasPrefix s ''-''" and "\<not> HasPrefix s ''+''"
  using assms isDigit_plain(3,4) [OF assms(2)]
  by (cases s; auto simp: HasPrefix_def)+

lemma underscoreOK_plain:
  assumes "s \<noteq> []" and "isDigit (hd s)" and "\<forall>c \<in> set s. isDigit c \<or> c = CHR ''.''"
  shows "underscoreOK s"
proof -
  have pre: "(2 \<le> length s \<and> hd s = CHR ''0'' \<and>
               toLower (s ! 1) \<in> {CHR ''b'', CHR ''o'', CHR ''x''}) = False"
  proof -
    have "toLower (s ! 1) \<notin> {CHR ''b'', CHR ''o'', CHR ''x''}" if "2 \<le> length s"
    proof -
      from that have "s ! 1 \<in> set s"
        by simp
      with assms(3) have "isDigit (s ! 1) \<or> s ! 1 = CHR ''.''"
        by blast
      from plain_toLower [OF this] show ?thesis
        by simp
    qed
    then show ?thesis
      by blast
  qed
  have hp: "HasPrefix s ''-'' = False" "HasPrefix s ''+'' = False"
    using HasPrefix_digit [OF assms(1,2)] by simp_all
  have "underscoreLoop False (CHR ''^'') s"
    using assms(3) by (rule underscoreLoop_plain) simp
  then show ?thesis
    by (simp only: underscoreOK_def Let_def hp simp_thms if_False pre)
qed

lemma special_plain:
  assumes "s \<noteq> []" and "isDigit (hd s)"
  shows "special s = None"
proof -
  from assms(1) obtain c cs where s: "s = c # cs"
    by (cases s) simp_all
  with assms(2) have c: "isDigit c"
    by simp
  have "map toLower s \<noteq> ''inf''" and "map toLower s \<noteq> ''infinity''" and "map toLower s \<noteq> ''nan''"
    using isDigit_plain(5,7,8) [OF c] by (auto simp: s)
  with HasPrefix_digit [OF assms] show ?thesis
    by (simp add: special_def Let_def)
qed

lemma readFloat_plain:
  assumes "s \<noteq> []" and "isDigit (hd s)" and "\<forall>c \<in> set s. isDigit c \<or> c = CHR ''.''"
    and rm: "readMantissa False s (False, False, 0, 0, 0) = ((sd, True, nd, dp0, mant), [])"
  shows "readFloat s =
           Some (False, False, mant,
                 (if mant \<noteq> 0 then (if sd then dp0 else int nd) - int nd else 0), [])"
proof -
  have sign: "(hd s = CHR ''-'') = False" "(hd s = CHR ''+'') = False"
    using isDigit_plain(3,4) [OF assms(2)] by simp_all
  have hex: "(2 < length s \<and> hd s = CHR ''0'' \<and> toLower (s ! 1) = CHR ''x'') = False"
  proof -
    have "toLower (s ! 1) \<noteq> CHR ''x''" if "2 < length s"
    proof -
      from that have "s ! 1 \<in> set s"
        by simp
      with assms(3) have "isDigit (s ! 1) \<or> s ! 1 = CHR ''.''"
        by blast
      then show ?thesis
        by (rule plain_toLower(1))
    qed
    then show ?thesis
      by auto
  qed
  have ex: "readExponent False [] = Some (0, [])"
    by (simp add: readExponent_def)
  have us: "underscoreOK s"
    using assms(1,2,3) by (rule underscoreOK_plain)
  have sne: "(s = []) = False"
    using assms(1) by simp
  have "readFloat s =
     (case ((sd, True, nd, dp0, mant), []) of
        ((sawdot, sawdigits, nd, dp0, mantissa), rest) \<Rightarrow>
          if \<not> sawdigits then None
          else
            let dp1 = (if sawdot then dp0 else int nd);
                dp2 = (if False then dp1 * 4 else dp1);
                ndMant = (if False then int nd * 4 else int nd)
            in (case readExponent False rest of
                  None \<Rightarrow> None
                | Some (e, rest') \<Rightarrow>
                    let ex = (if mantissa \<noteq> 0 then dp2 + e - ndMant else 0)
                    in if underscoreOK (take (length s - length rest') s)
                       then Some (False, False, mantissa, ex, rest')
                       else None))"
    unfolding readFloat_def by (simp only: sne sign hex Let_def simp_thms if_False rm)
  then show ?thesis
    by (simp add: ex us)
qed

lemma ParseFloat_plain:
  assumes "s \<noteq> []" and "isDigit (hd s)" and "\<forall>c \<in> set s. isDigit c \<or> c = CHR ''.''"
    and rm: "readMantissa False s (False, False, 0, 0, 0) = ((sd, True, nd, dp0, mant), [])"
    and m: "mant \<noteq> 0"
  shows "ParseFloat s =
           roundToFloat64 False
             (fst (powFrac 10 mant ((if sd then dp0 else int nd) - int nd)))
             (snd (powFrac 10 mant ((if sd then dp0 else int nd) - int nd)))"
  using readFloat_plain [OF assms(1,2,3) rm] special_plain [OF assms(1,2)] m
  by (simp add: ParseFloat_def Let_def)

lemma ParseFloat_fmtF:
  assumes ne: "ds \<noteq> []" and dg: "list_all isDigit ds" and hd: "nonzeroDigit (hd ds)"
  shows "ParseFloat (fmtF False ds dp (nat (int (length ds) - dp))) =
           roundToFloat64 False
             (fst (powFrac 10 (digitsVal ds) (dp - int (length ds))))
             (snd (powFrac 10 (digitsVal ds) (dp - int (length ds))))"
proof -
  let ?L = "length ds"
  let ?s = "fmtF False ds dp (nat (int ?L - dp))"
  have pos: "0 < digitsVal ds"
    using ne dg hd by (rule digitsVal_pos)
  have hd0: "hd ds \<noteq> CHR ''0''"
    using hd by (rule nonzeroDigit_not_zero)
  have hdd: "isDigit (hd ds)"
    using hd by (rule nonzeroDigit_isDigit)
  have all: "\<forall>c \<in> set ds. isDigit c"
    using dg by (simp add: list_all_iff)
  consider (whole) "int ?L \<le> dp" | (mixed) "0 < dp" "dp < int ?L" | (small) "dp \<le> 0"
    by linarith
  then show ?thesis
  proof cases
    case whole
    let ?z = "nat dp - ?L"
    from whole ne have dp0: "0 < dp"
      by (cases ds) simp_all
    have s: "?s = ds @ replicate ?z (CHR ''0'')"
      using whole dp0 by (simp add: fmtF_def)
    have sd: "list_all isDigit (ds @ replicate ?z (CHR ''0''))"
      using dg by (auto simp: list_all_iff isDigit_zero)
    have sh: "hd (ds @ replicate ?z (CHR ''0'')) = hd ds"
      using ne by simp
    have val: "digitsVal (ds @ replicate ?z (CHR ''0'')) = digitsVal ds * 10 ^ ?z"
      by (simp add: digitsVal_append digitsVal_zeros)
    have "readMantissa False ((ds @ replicate ?z (CHR ''0'')) @ []) (False, False, 0, 0, 0) =
          readMantissa False [] (False, False \<or> ds @ replicate ?z (CHR ''0'') \<noteq> [],
             0 + length (ds @ replicate ?z (CHR ''0'')), 0,
             0 * 10 ^ length (ds @ replicate ?z (CHR ''0'')) + digitsVal (ds @ replicate ?z (CHR ''0'')))"
      using sd by (rule rm_digits) (simp add: sh hd0)
    then have rm: "readMantissa False ?s (False, False, 0, 0, 0) =
          ((False, True, ?L + ?z, 0, digitsVal ds * 10 ^ ?z), [])"
      using ne by (simp add: s val)
    have "ParseFloat ?s =
           roundToFloat64 False
             (fst (powFrac 10 (digitsVal ds * 10 ^ ?z) ((if False then 0 else int (?L + ?z)) - int (?L + ?z))))
             (snd (powFrac 10 (digitsVal ds * 10 ^ ?z) ((if False then 0 else int (?L + ?z)) - int (?L + ?z))))"
    proof (rule ParseFloat_plain [OF _ _ _ rm])
      show "?s \<noteq> []"
        using ne by (simp add: s)
      show "isDigit (hd ?s)"
        using hdd by (simp add: s sh)
      show "\<forall>c \<in> set ?s. isDigit c \<or> c = CHR ''.''"
        using sd by (simp add: s list_all_iff)
      show "digitsVal ds * 10 ^ ?z \<noteq> 0"
        using pos by simp
    qed
    moreover have "nat (dp - int ?L) = ?z"
      by simp
    ultimately show ?thesis
      using whole by (simp add: powFrac_def)
  next
    case mixed
    let ?a = "take (nat dp) ds" and ?b = "drop (nat dp) ds"
    have prec: "0 < nat (int ?L - dp)"
      using mixed by simp
    have fd: "map (fracDigit ds dp) [0..<nat (int ?L - dp)] = ?b"
      using fracDigits [of dp ds] mixed by simp
    have s: "?s = ?a @ CHR ''.'' # ?b"
      using mixed prec by (simp add: fmtF_def fd)
    have ane: "?a \<noteq> []"
      using mixed ne by simp
    have ah: "hd ?a = hd ds"
      using mixed ne by (cases ds; cases "nat dp") simp_all
    have ad: "list_all isDigit ?a" and bd: "list_all isDigit ?b"
      using all by (auto simp: list_all_iff dest: in_set_takeD in_set_dropD)
    have la: "length ?a = nat dp" and lb: "nat dp + length ?b = ?L"
      using mixed by simp_all
    have "readMantissa False (?a @ CHR ''.'' # ?b) (False, False, 0, 0, 0) =
          readMantissa False (CHR ''.'' # ?b) (False, False \<or> ?a \<noteq> [], 0 + length ?a, 0,
             0 * 10 ^ length ?a + digitsVal ?a)"
      using ad by (rule rm_digits) (simp add: ah hd0)
    also have "\<dots> = readMantissa False (CHR ''.'' # ?b) (False, True, nat dp, 0, digitsVal ?a)"
      using ane by (simp only: la simp_thms) simp
    also have "\<dots> = readMantissa False (?b @ []) (True, True, nat dp, int (nat dp), digitsVal ?a)"
      by (simp only: rm_point append_Nil2)
    also have "\<dots> = readMantissa False [] (True, True \<or> ?b \<noteq> [], nat dp + length ?b, int (nat dp),
             digitsVal ?a * 10 ^ length ?b + digitsVal ?b)"
      using bd by (rule rm_digits) (use mixed in simp)
    also have "digitsVal ?a * 10 ^ length ?b + digitsVal ?b = digitsVal ds"
      using digitsVal_append [of ?a ?b] by simp
    finally have rm: "readMantissa False ?s (False, False, 0, 0, 0) =
          ((True, True, ?L, dp, digitsVal ds), [])"
      using mixed by (simp add: s lb)
    have "ParseFloat ?s =
           roundToFloat64 False
             (fst (powFrac 10 (digitsVal ds) ((if True then dp else int ?L) - int ?L)))
             (snd (powFrac 10 (digitsVal ds) ((if True then dp else int ?L) - int ?L)))"
    proof (rule ParseFloat_plain [OF _ _ _ rm])
      show "?s \<noteq> []"
        by (simp add: s)
      show "isDigit (hd ?s)"
        using hdd ane by (simp add: s ah)
      show "\<forall>c \<in> set ?s. isDigit c \<or> c = CHR ''.''"
        using ad bd unfolding s by (auto simp: list_all_iff)
      show "digitsVal ds \<noteq> 0"
        using pos by simp
    qed
    then show ?thesis
      by simp
  next
    case small
    let ?z = "nat (- dp)"
    have prec: "0 < nat (int ?L - dp)"
      using small ne by (cases ds) simp_all
    have fd: "map (fracDigit ds dp) [0..<nat (int ?L - dp)] =
              (if 0 \<le> dp then drop (nat dp) ds else replicate ?z (CHR ''0'') @ ds)"
      using small by (intro fracDigits) simp
    have fd': "map (fracDigit ds dp) [0..<nat (int ?L - dp)] = replicate ?z (CHR ''0'') @ ds"
    proof (cases "0 \<le> dp")
      case True
      with small have z: "dp = 0"
        by simp
      from fd True have "map (fracDigit ds dp) [0..<nat (int ?L - dp)] = drop (nat dp) ds"
        by (simp only: if_True)
      then show ?thesis
        by (simp add: z)
    next
      case False
      with fd show ?thesis
        by (simp only: if_False)
    qed
    have s: "?s = CHR ''0'' # CHR ''.'' # replicate ?z (CHR ''0'') @ ds"
      using small prec by (simp add: fmtF_def fd')
    have "readMantissa False (CHR ''0'' # CHR ''.'' # replicate ?z (CHR ''0'') @ ds) (False, False, 0, 0, 0) =
          readMantissa False (CHR ''.'' # replicate ?z (CHR ''0'') @ ds) (False, True, 0, - 1, 0)"
      by (simp add: isDigit_zero)
    also have "\<dots> = readMantissa False (replicate ?z (CHR ''0'') @ ds) (True, True, 0, int 0, 0)"
      by (simp only: rm_point)
    also have "\<dots> = readMantissa False (ds @ []) (True, True \<or> 0 < ?z, 0, int 0 - int ?z, 0)"
      by (simp only: rm_zeros append_Nil2)
    also have "\<dots> = readMantissa False [] (True, (True \<or> 0 < ?z) \<or> ds \<noteq> [], 0 + ?L, int 0 - int ?z,
             0 * 10 ^ ?L + digitsVal ds)"
      using dg by (rule rm_digits) (simp add: hd0)
    finally have rm: "readMantissa False ?s (False, False, 0, 0, 0) =
          ((True, True, ?L, dp, digitsVal ds), [])"
      using small by (simp add: s)
    have "ParseFloat ?s =
           roundToFloat64 False
             (fst (powFrac 10 (digitsVal ds) ((if True then dp else int ?L) - int ?L)))
             (snd (powFrac 10 (digitsVal ds) ((if True then dp else int ?L) - int ?L)))"
    proof (rule ParseFloat_plain [OF _ _ _ rm])
      show "?s \<noteq> []"
        by (simp add: s)
      show "isDigit (hd ?s)"
        by (simp add: s isDigit_zero)
      show "\<forall>c \<in> set ?s. isDigit c \<or> c = CHR ''.''"
        using all unfolding s by (auto simp: isDigit_zero)
      show "digitsVal ds \<noteq> 0"
        using pos by simp
    qed
    then show ?thesis
      by simp
  qed
qed

subsection \<open>Parsing a rendering gives the number back\<close>

text \<open>
  Dropping the trailing zeros does not change the number that the digits and the
  position of the point stand for, so the rendering of a binary64 number parses back
  to it; and every finite number that the parser returns is zero or a valid binary64
  number.
\<close>

lemma zeros_replicate:
  "rev (takeWhile (\<lambda>c. c = CHR ''0'') xs) =
   replicate (length (takeWhile (\<lambda>c. c = CHR ''0'') xs)) (CHR ''0'')"
proof -
  let ?t = "takeWhile (\<lambda>c. c = CHR ''0'') xs"
  have "\<forall>y \<in> set (rev ?t). y = CHR ''0''"
    by (auto dest: set_takeWhileD)
  then have "replicate (length (rev ?t)) (CHR ''0'') = rev ?t"
    by (rule replicate_length_same)
  then show ?thesis
    by simp
qed

lemma trimZeros_value:
  "digitsVal ds = digitsVal (trimZeros ds) * 10 ^ (length ds - length (trimZeros ds)) \<and>
   length (trimZeros ds) \<le> length ds"
proof -
  let ?t = "length (takeWhile (\<lambda>c. c = CHR ''0'') (rev ds))"
  have sp: "ds = trimZeros ds @ replicate ?t (CHR ''0'')"
    using trimZeros_split [of ds] by (simp only: zeros_replicate)
  then have "length ds = length (trimZeros ds) + ?t"
    by (metis length_append length_replicate)
  then have len: "length ds - length (trimZeros ds) = ?t" and le: "length (trimZeros ds) \<le> length ds"
    by simp_all
  have "digitsVal ds = digitsVal (trimZeros ds @ replicate ?t (CHR ''0''))"
    using sp by simp
  also have "\<dots> = digitsVal (trimZeros ds) * 10 ^ ?t"
    by (simp add: digitsVal_append digitsVal_zeros)
  finally show ?thesis
    using len le by simp
qed

lemma FormatFloat_roundTrip:
  assumes v: "validNum m e"
  shows "ParseFloat (FormatFloat (Num False m e)) = Inr (Num False m e)"
proof -
  from v have m: "0 < m"
    by (simp add: validNum_def)
  obtain c k where ck: "shortestFrom 1 m e = (c, k)"
    by (cases "shortestFrom 1 m e")
  with shortestFrom_pos [OF m, of 1 e] have c: "0 < c"
    by simp
  let ?D = "digitsOfNat c"
  let ?ds = "trimZeros ?D"
  let ?dp = "int (length ?D) + k"
  define t where "t = length ?D - length ?ds"
  have d0: "list_all isDigit ?D"
    using c by (intro digitsOfNat_digits) simp
  note tz = trimZeros_canonical [OF digitsOfNat_nonempty hd_digitsOfNat [OF c] d0]
  have ds1: "?ds \<noteq> []"
    by (rule tz(1))
  have ds2: "list_all isDigit ?ds"
    using d0 by (rule trimZeros_digits)
  have ds3: "nonzeroDigit (hd ?ds)"
    using tz(2) hd_digitsOfNat [OF c] by simp
  have ff: "FormatFloat (Num False m e) = fmtF False ?ds ?dp (nat (int (length ?ds) - ?dp))"
    using ck m by (simp add: FormatFloat_def shortest_def)
  define q' where "q' = powFrac 10 (digitsVal ?ds) (?dp - int (length ?ds))"
  define q where "q = powFrac 10 c k"
  have pf: "ParseFloat (FormatFloat (Num False m e)) = roundToFloat64 False (fst q') (snd q')"
    unfolding ff q'_def using ds1 ds2 ds3 by (rule ParseFloat_fmtF)
  have rt: "roundToFloat64 False (fst q) (snd q) = Inr (Num False m e)"
    using shortestFrom_roundTrips [OF v ck] by (simp add: roundTrips_def Let_def q_def)
  have dv: "0 < digitsVal ?ds"
    using ds1 ds2 ds3 by (rule digitsVal_pos)
  have q'p: "0 < fst q'" "0 < snd q'"
    using dv by (simp_all add: q'_def powFrac_def)
  have qp: "0 < fst q" "0 < snd q"
    using c by (simp_all add: q_def powFrac_def)
  define V where "V = digitsVal ?ds"
  from trimZeros_value [of ?D] have cv: "c = V * 10 ^ t" and le: "length ?ds \<le> length ?D"
    using c by (simp_all add: digitsVal_digitsOfNat t_def V_def)
  have ex: "?dp - int (length ?ds) = int t + k"
    using le by (simp add: t_def)
  have fq': "fracVal q' = real_of_int V * 10 powi (int t + k)"
    using fracVal_powFrac(1) [of 10 "digitsVal ?ds" "?dp - int (length ?ds)"]
    by (simp add: q'_def ex V_def)
  have fq: "fracVal q = real_of_int c * 10 powi k"
    using fracVal_powFrac(1) [of 10 c k] by (simp add: q_def)
  have "real_of_int c = real_of_int (V * 10 ^ t)"
    by (subst cv) (rule refl)
  then have cr: "real_of_int c = real_of_int V * 10 powi int t"
    by simp
  have "(10::real) powi (int t + k) = 10 powi int t * 10 powi k"
    by (rule power_int_add) simp
  then have "fracVal q' = fracVal q"
    by (simp only: fq' fq cr mult.assoc)
  then have "real_of_int (fst q') / real_of_int (snd q') = real_of_int (fst q) / real_of_int (snd q)"
    by (simp only: fracVal_def)
  from roundToFloat64_value [OF q'p qp this, of False] pf rt show ?thesis
    by simp
qed

lemma ParseFloat_valid:
  assumes "ParseFloat s = Inr (Num neg m e)"
  shows "m = 0 \<or> validNum m e"
proof (cases "special s")
  case (Some w)
  with assms have "w = Num neg m e"
    by (simp add: ParseFloat_def)
  with special_sign [OF Some] show ?thesis
    by simp
next
  case None
  with assms obtain ng hex mantissa ex where
    rf: "readFloat s = Some (ng, hex, mantissa, ex, [])"
    and rd: "roundToFloat64 ng (fst (powFrac (if hex then 2 else 10) mantissa ex))
               (snd (powFrac (if hex then 2 else 10) mantissa ex)) = Inr (Num neg m e)"
    by (auto simp: ParseFloat_def Let_def split: option.splits if_splits)
  let ?q = "powFrac (if hex then 2 else 10) mantissa ex"
  from readFloat_sign [OF rf] have mn: "0 \<le> mantissa"
    by simp
  have sg: "0 \<le> fst ?q \<and> 0 < snd ?q"
    using mn by (intro powFrac_sign) auto
  show ?thesis
  proof (cases "fst ?q = 0")
    case True
    with rd show ?thesis
      by (simp add: roundToFloat64_def)
  next
    case False
    with sg have "0 < fst ?q" and "0 < snd ?q"
      by simp_all
    from roundToFloat64_valid [OF this rd] show ?thesis
      by blast
  qed
qed

subsection \<open>The emitted records\<close>

text \<open>
  Every amount that the row loop writes is stable, and so are all the records of the
  writers after any number of rows and sheets.
\<close>

lemma stableAmount_iff:
  "stableAmount a = (\<exists>v. ParseFloat a = Inr v \<and> FormatFloat v = a)"
  by (cases "ParseFloat a") (simp_all add: stableAmount_def)

lemma stable_zero: "stableAmount ''0''"
  by code_simp

lemma stable_NaN: "stableAmount ''NaN''"
  by code_simp

lemma stable_Inf: "stableAmount ''+Inf''"
  by code_simp

lemma stable_Num:
  assumes "m = 0 \<or> validNum m e"
  shows "stableAmount (FormatFloat (Num False m e))"
proof (cases "m = 0")
  case True
  then have "FormatFloat (Num False m e) = ''0''"
    by (simp add: FormatFloat_def shortest_def fmtF_def)
  with stable_zero show ?thesis
    by simp
next
  case False
  with assms have "validNum m e"
    by simp
  from FormatFloat_roundTrip [OF this] show ?thesis
    by (simp add: stableAmount_def)
qed

lemma stable_emitted:
  assumes "ParseFloat s = Inr v"
  shows "stableAmount (FormatFloat (if HasPrefix s ''-'' then negate v else v))"
proof -
  from ParseFloat_sign [OF assms] consider
      (nan) "v = NaN"
    | (inf) "v = Infinity (HasPrefix s ''-'')"
    | (num) m e where "v = Num (HasPrefix s ''-'') m e"
    by blast
  then show ?thesis
  proof cases
    case nan
    with stable_NaN show ?thesis
      by (simp add: FormatFloat_def)
  next
    case inf
    with stable_Inf show ?thesis
      by (simp add: FormatFloat_def)
  next
    case num
    with assms have "m = 0 \<or> validNum m e"
      by (intro ParseFloat_valid [of s "HasPrefix s ''-''"]) simp
    from stable_Num [OF this] num show ?thesis
      by simp
  qed
qed

lemma writerStable_appendRecord:
  "writerStable (appendRecord w r) = (writerStable w \<and> recordStable r)"
  by (auto simp: writerStable_def appendRecord_def records_def)

lemma writerStable_Flush: "writerStable (Flush w) = writerStable w"
  by (simp add: writerStable_def records_def Flush_def)

lemma writerStable_NewWriter: "writerStable NewWriter"
  by (simp add: writerStable_def records_def NewWriter_def)

lemma processRow_stable:
  assumes "writerStable (fst ws)" and "writerStable (snd ws)" and "processRow i row ws = Inr ws'"
  shows "writerStable (fst ws') \<and> writerStable (snd ws')"
proof (cases "skipRow i row")
  case True
  with assms show ?thesis
    by (simp add: processRow_skip)
next
  case False
  from processRow_emit [OF False, of ws] obtain amount where
    p: "ParseFloat (cleanedAmount row) = Inr amount" and
    r: "processRow i row ws =
          Inr (if HasPrefix (cleanedAmount row) ''-''
               then (appendRecord (fst ws) [row ! 0, row ! 24, FormatFloat (negate amount)], snd ws)
               else (fst ws, appendRecord (snd ws) [row ! 0, row ! 24, FormatFloat amount]))"
    by blast
  show ?thesis
  proof (cases "HasPrefix (cleanedAmount row) ''-''")
    case True
    with r assms(3)
    have "ws' = (appendRecord (fst ws) [row ! 0, row ! 24, FormatFloat (negate amount)], snd ws)"
      by simp
    with assms(1,2) stable_emitted [OF p] True show ?thesis
      by (simp add: writerStable_appendRecord recordStable_def)
  next
    case False
    with r assms(3)
    have "ws' = (fst ws, appendRecord (snd ws) [row ! 0, row ! 24, FormatFloat amount])"
      by simp
    with assms(1,2) stable_emitted [OF p] False show ?thesis
      by (simp add: writerStable_appendRecord recordStable_def)
  qed
qed

lemma processRows_stable:
  "writerStable (fst ws) \<Longrightarrow> writerStable (snd ws) \<Longrightarrow> processRows i rows ws = Inr ws' \<Longrightarrow>
   writerStable (fst ws') \<and> writerStable (snd ws')"
proof (induction rows arbitrary: i ws)
  case Nil
  then show ?case by simp
next
  case (Cons row rows)
  from Cons.prems(3) obtain ws1 where
    a: "processRow i row ws = Inr ws1" and b: "processRows (Suc i) rows ws1 = Inr ws'"
    by (auto split: sum.splits)
  from processRow_stable [OF Cons.prems(1,2) a]
  have "writerStable (fst ws1)" and "writerStable (snd ws1)"
    by simp_all
  then show ?case
    using b by (rule Cons.IH)
qed

lemma processSheet_stable:
  assumes "writerStable (fst ws)" and "writerStable (snd ws)"
    and "processSheet f name ws = Inr (f', ws')"
  shows "writerStable (fst ws') \<and> writerStable (snd ws')"
  using processSheet_writers [OF assms(3)] assms(1,2)
  by (auto simp: writerStable_Flush dest: processRows_stable [rotated 2])

lemma sheetLoop_stable:
  "writerStable (fst ws) \<Longrightarrow> writerStable (snd ws) \<Longrightarrow> sheetLoop f names ws = Inr (f', ws') \<Longrightarrow>
   writerStable (fst ws') \<and> writerStable (snd ws')"
proof (induction names arbitrary: f ws)
  case Nil
  then show ?case by simp
next
  case (Cons name names)
  from Cons.prems(3) obtain f1 ws1 where
    a: "processSheet f name ws = Inr (f1, ws1)" and b: "sheetLoop f1 names ws1 = Inr (f', ws')"
    by (auto split: sum.splits)
  from processSheet_stable [OF Cons.prems(1,2) a]
  have "writerStable (fst ws1)" and "writerStable (snd ws1)"
    by simp_all
  then show ?case
    using b by (rule Cons.IH)
qed

text \<open>
  Claim C8.  Canonicalization is idempotent: every record written by the transform, to
  either writer and from any sheet, has three fields, and its amount parses as a
  number whose rendering in canonical minimal decimal form is the amount itself.
\<close>

theorem canonicalization_idempotent:
  assumes "ledger fs filePath = Inr ws"
  shows "\<forall>r \<in> set (records (fst ws) @ records (snd ws)).
           length r = 3 \<and> (\<exists>v. ParseFloat (r ! 2) = Inr v \<and> FormatFloat v = r ! 2)"
proof -
  from assms obtain f f' where step: "sheetLoop f (GetSheetList f) (NewWriter, NewWriter) = Inr (f', ws)"
    by (auto simp: ledger_def split: sum.splits)
  have "writerStable (fst (NewWriter, NewWriter))" and "writerStable (snd (NewWriter, NewWriter))"
    by (simp_all add: writerStable_NewWriter)
  from sheetLoop_stable [OF this step]
  have "list_all recordStable (records (fst ws) @ records (snd ws))"
    by (simp add: writerStable_def)
  then show ?thesis
    by (simp add: list_all_iff recordStable_def stableAmount_iff)
qed

text \<open>
  Claim C8, witness: the amount \<open>0.30000000000000004\<close>, which needs all 17 digits,
  is emitted unchanged, parses to \<open>5404319552844596 * 2^-54\<close> and is rendered from
  it again.
\<close>

theorem canonicalization_idempotent_witness:
  "ledger (book [(''Sheet1'', singleRecordSheet ''0.30000000000000004'')]) ''book.xlsx'' =
     Inr (NewWriter, \<lparr>buffered = [], flushed = [[''REF1'', ''MEMO1'', ''0.30000000000000004'']]\<rparr>) \<and>
   ParseFloat ''0.30000000000000004'' = Inr (Num False 5404319552844596 (- 54)) \<and>
   FormatFloat (Num False 5404319552844596 (- 54)) = ''0.30000000000000004''"
proof -
  have a: "ledger (book [(''Sheet1'', singleRecordSheet ''0.30000000000000004'')]) ''book.xlsx'' =
     Inr (NewWriter, \<lparr>buffered = [], flushed = [[''REF1'', ''MEMO1'', ''0.30000000000000004'']]\<rparr>)"
    by code_simp
  have p: "ParseFloat ''0.30000000000000004'' = Inr (Num False 5404319552844596 (- 54))"
    by code_simp
  from canonicalization_idempotent [OF a]
  have "\<exists>v. ParseFloat ''0.30000000000000004'' = Inr v \<and> FormatFloat v = ''0.30000000000000004''"
    by (simp add: records_def NewWriter_def)
  with p have "FormatFloat (Num False 5404319552844596 (- 54)) = ''0.30000000000000004''"
    by simp
  with a p show ?thesis
    by blast
qed

end
